theory Spec2Isabelle
  imports Complex_Main "HOL-Library.Word" "HOL-Library.Multiset" "HOL-Library.Log_Nat"
begin

unbundle bit_operations_syntax

section \<open>Data model of \<open>LinearHash<K, V>\<close> (linear_hash.h)\<close>

text \<open>
  The header holds the class twice, in two revisions that differ in comments and in the
  name of the load test (\<open>should_split\<close>, later \<open>split_cond\<close>, whose result \<open>insert\<close>
  then keeps in a local \<open>should_split\<close>); run by one thread they do the same, and the
  definitions below follow the later one.

  \<open>size_t\<close> is a 64-bit word: \<open>+\<close>, \<open>-\<close> and \<open><<\<close> wrap (a shift by 64 or more, which
  C++ leaves undefined, gives 0). \<open>std::hash<K>\<close> is a parameter
  \<open>hash :: 'k \<Rightarrow> 64 word\<close> of every operation that addresses a bucket. A \<open>std::vector\<close>
  is a list; its \<open>size()\<close> is the \<open>size_t\<close> value \<open>vsize\<close>, and \<open>at\<close> throws
  \<open>std::out_of_range\<close>, the error \<open>OutOfRange\<close>. Allocation is taken to succeed. The
  mutexes of \<open>Bucket\<close> and of the table carry no data and are left out: the operations
  below are the sequential executions of the methods.
\<close>

type_synonym size_t = "64 word"

datatype error = InvalidArgument | OutOfRange

datatype ('k, 'v) entry = Entry (key: 'k) (val: 'v)

type_synonym ('k, 'v) bucket = "('k, 'v) entry list"

section \<open>The type \<open>double\<close>\<close>

text \<open>
  \<open>max_load_factor\<close> and the load quotient of \<open>split_cond\<close> are of type \<open>double\<close>, IEEE 754
  binary64. A finite value is the rational it denotes (so \<open>Finite 0\<close> stands for both
  zeros, which compare equal); the other values are the two infinities and NaN.
  The cast of a \<open>size_t\<close> and the division round in the default mode, and the quotient
  is stored in a \<open>double\<close> variable before it is compared, so the comparison sees the
  rounded value.

  \<open>round_to_double\<close> is the rounding of the default mode, to nearest with ties to the even
  significand. For \<open>q \<noteq> 0\<close> the exponent of the unit in the last place is
  \<open>e = max (floor_log2 \<bar>q\<bar> - 52) (- 1074)\<close>: 53 significant bits in the normal range, the
  fixed exponent \<open>-1074\<close> of the subnormal numbers below it. The significand is
  \<open>\<bar>q\<bar> / 2 ^ e\<close> rounded to an integer \<open>m \<le> 2 ^ 53\<close>. The largest finite value is
  \<open>(2 ^ 53 - 1) * 2 ^ 971\<close>, so the result overflows to an infinity exactly when \<open>971 < e\<close>, or
  \<open>e = 971\<close> and \<open>m = 2 ^ 53 = 9007199254740992\<close>.
\<close>

datatype double = Finite rat | PlusInf | MinusInf | NaN

definition pow2 :: "int \<Rightarrow> rat" where
  "pow2 e = (if 0 \<le> e then 2 ^ nat e else 1 / 2 ^ nat (- e))"

text \<open>The integer part of the binary logarithm of a positive rational, from the bit lengths of numerator and denominator
  (lemma \<open>floor_log2_bounds\<close> below).\<close>
definition floor_log2 :: "rat \<Rightarrow> int" where
  "floor_log2 q =
     (let (a, b) = quotient_of q;
          k = bitlen a - bitlen b
      in if pow2 k \<le> q then k else k - 1)"

definition round_half_even :: "rat \<Rightarrow> int" where
  "round_half_even q =
     (let f = \<lfloor>q\<rfloor>;
          r = q - of_int f
      in if r < 1 / 2 then f
         else if 1 / 2 < r then f + 1
         else if even f then f else f + 1)"

definition round_to_double :: "rat \<Rightarrow> double" where
  "round_to_double q =
     (if q = 0 then Finite 0
      else let a = \<bar>q\<bar>;
               e = max (floor_log2 a - 52) (- 1074);
               m = round_half_even (a / pow2 e)
           in if 971 < e \<or> (e = 971 \<and> m = 9007199254740992)
              then (if 0 < q then PlusInf else MinusInf)
              else Finite (sgn q * (of_int m * pow2 e)))"

text \<open>\<open>static_cast<double>\<close> of a \<open>size_t\<close>: exact up to \<open>2 ^ 53\<close>, rounded above.\<close>
definition double_of_size_t :: "size_t \<Rightarrow> double" where
  "double_of_size_t n = round_to_double (of_nat (unat n))"

text \<open>The operator \<open>/\<close> on \<open>double\<close>. The zero divisor is \<open>+0\<close>: the one division of the
  source divides two casts of \<open>size_t\<close>.\<close>
fun double_div :: "double \<Rightarrow> double \<Rightarrow> double" where
  "double_div (Finite x) (Finite y) =
     (if y = 0 then (if x = 0 then NaN else if 0 < x then PlusInf else MinusInf)
      else round_to_double (x / y))"
| "double_div (Finite x) PlusInf = Finite 0"
| "double_div (Finite x) MinusInf = Finite 0"
| "double_div PlusInf (Finite y) = (if y < 0 then MinusInf else PlusInf)"
| "double_div MinusInf (Finite y) = (if y < 0 then PlusInf else MinusInf)"
| "double_div _ _ = NaN"

text \<open>The operator \<open>>\<close> on \<open>double\<close>: false whenever an operand is NaN.\<close>
fun double_gt :: "double \<Rightarrow> double \<Rightarrow> bool" where
  "double_gt (Finite x) (Finite y) = (y < x)"
| "double_gt (Finite x) MinusInf = True"
| "double_gt PlusInf (Finite y) = True"
| "double_gt PlusInf MinusInf = True"
| "double_gt _ _ = False"

section \<open>The table\<close>

record ('k, 'v) linear_hash =
  table :: "('k, 'v) bucket list"
  max_load_factor :: double
  num_elem :: size_t
  split_ptr :: size_t
  init_size :: size_t
  depth :: size_t

definition vsize :: "'a list \<Rightarrow> size_t" where
  "vsize xs = of_nat (length xs)"

definition vector_at :: "'a list \<Rightarrow> size_t \<Rightarrow> error + 'a" where
  "vector_at xs i = (if i < vsize xs then Inr (xs ! unat i) else Inl OutOfRange)"

section \<open>Constructor and accessors\<close>

definition LinearHash :: "size_t \<Rightarrow> double \<Rightarrow> error + ('k, 'v) linear_hash" where
  "LinearHash sz load_factor =
     (if sz = 0 \<or> (sz AND (sz - 1)) \<noteq> 0 then Inl InvalidArgument
      else Inr \<lparr>table = replicate (unat sz) [], max_load_factor = load_factor,
                num_elem = 0, split_ptr = 0, init_size = sz, depth = 0\<rparr>)"

definition get_table_size :: "('k, 'v) linear_hash \<Rightarrow> size_t" where
  "get_table_size s = vsize (table s)"

definition get_num_elem :: "('k, 'v) linear_hash \<Rightarrow> size_t" where
  "get_num_elem s = num_elem s"

definition get_split_ptr :: "('k, 'v) linear_hash \<Rightarrow> size_t" where
  "get_split_ptr s = split_ptr s"

section \<open>Addressing\<close>

definition hash2bucket :: "('k \<Rightarrow> size_t) \<Rightarrow> ('k, 'v) linear_hash \<Rightarrow> 'k \<Rightarrow> size_t" where
  "hash2bucket hash s k =
     (let h = hash k;
          pre_expansion_size = push_bit (unat (depth s)) (init_size s);
          mask = pre_expansion_size - 1;
          index = h AND mask
      in if index < split_ptr s then h AND (push_bit 1 mask + 1) else index)"

text \<open>
  The addressing function as section 4.1 of the specification words it, on the four
  values it is said to depend on.
\<close>

definition addr_spec :: "size_t \<Rightarrow> size_t \<Rightarrow> size_t \<Rightarrow> size_t \<Rightarrow> size_t" where
  "addr_spec h isize d sp =
     (let L = push_bit (unat d) isize;
          i0 = h AND (L - 1)
      in if i0 < sp then h AND (push_bit 1 (L - 1) OR 1) else i0)"

text \<open>The load test: both counts are cast to \<open>double\<close>, divided in \<open>double\<close> and the
  rounded quotient is compared with \<open>max_load_factor\<close>.\<close>
definition split_cond :: "('k, 'v) linear_hash \<Rightarrow> bool" where
  "split_cond s =
     (if table s = [] then False
      else let load = double_div (double_of_size_t (num_elem s))
                                 (double_of_size_t (vsize (table s)))
           in double_gt load (max_load_factor s))"

section \<open>Bucket scans\<close>

text \<open>The overwrite loop of \<open>insert\<close>: the first entry with the key gets the value;
  \<open>None\<close> when the loop ends without a match.\<close>

fun overwrite :: "'k \<Rightarrow> 'v \<Rightarrow> ('k, 'v) bucket \<Rightarrow> ('k, 'v) bucket option" where
  "overwrite k v [] = None"
| "overwrite k v (e # es) =
     (if key e = k then Some (Entry (key e) v # es)
      else map_option ((#) e) (overwrite k v es))"

text \<open>The scan of \<open>get\<close>: the value of the first entry with the key.\<close>

fun find_value :: "'k \<Rightarrow> ('k, 'v) bucket \<Rightarrow> 'v option" where
  "find_value k [] = None"
| "find_value k (e # es) = (if key e = k then Some (val e) else find_value k es)"

text \<open>The scan of \<open>in\<close>.\<close>

fun has_key :: "'k \<Rightarrow> ('k, 'v) bucket \<Rightarrow> bool" where
  "has_key k [] = False"
| "has_key k (e # es) = (if key e = k then True else has_key k es)"

text \<open>The index loop of \<open>remove\<close>: the first index whose entry has the key.\<close>

fun find_index_of :: "'k \<Rightarrow> ('k, 'v) bucket \<Rightarrow> nat option" where
  "find_index_of k [] = None"
| "find_index_of k (e # es) =
     (if key e = k then Some 0 else map_option Suc (find_index_of k es))"

text \<open>\<open>bucket[i] = std::move(bucket.back()); bucket.pop_back();\<close>\<close>

definition swap_pop :: "nat \<Rightarrow> 'a list \<Rightarrow> 'a list" where
  "swap_pop i xs = butlast (xs[i := last xs])"

section \<open>Split step and the public operations\<close>

text \<open>
  The body of the \<open>if (should_split)\<close> block of \<open>insert\<close> after the re-check: append a
  bucket, move the entries of bucket \<open>split_ptr\<close> whose hash has the bit
  \<open>init_size << depth\<close> to the new bucket, advance the split pointer and wrap.
\<close>

definition split_step :: "('k \<Rightarrow> size_t) \<Rightarrow> ('k, 'v) linear_hash \<Rightarrow> error + ('k, 'v) linear_hash" where
  "split_step hash s =
     (let table1 = table s @ [[]]
      in case vector_at table1 (split_ptr s) of
           Inl e \<Rightarrow> Inl e
         | Inr original \<Rightarrow>
             let higher_mask = push_bit (unat (depth s)) (init_size s);
                 (moved, temp) = partition (\<lambda>e. hash (key e) AND higher_mask \<noteq> 0) original;
                 table2 = table1[length table1 - 1 := last table1 @ moved];
                 table3 = table2[unat (split_ptr s) := temp];
                 sp = split_ptr s + 1
             in if sp \<ge> push_bit (unat (depth s)) (init_size s)
                then Inr (s\<lparr>table := table3, split_ptr := 0, depth := depth s + 1\<rparr>)
                else Inr (s\<lparr>table := table3, split_ptr := sp\<rparr>))"

definition insert_lh :: "('k \<Rightarrow> size_t) \<Rightarrow> 'k \<Rightarrow> 'v \<Rightarrow> ('k, 'v) linear_hash \<Rightarrow> error + ('k, 'v) linear_hash" where
  "insert_lh hash k v s =
     (let i = hash2bucket hash s k
      in case vector_at (table s) i of
           Inl e \<Rightarrow> Inl e
         | Inr bucket \<Rightarrow>
             (case overwrite k v bucket of
                Some bucket' \<Rightarrow> Inr (s\<lparr>table := (table s)[unat i := bucket']\<rparr>)
              | None \<Rightarrow>
                  let s1 = s\<lparr>table := (table s)[unat i := bucket @ [Entry k v]],
                             num_elem := num_elem s + 1\<rparr>;
                      should_split = split_cond s1
                  in if should_split
                     then (if \<not> split_cond s1 then Inr s1 else split_step hash s1)
                     else Inr s1))"

definition get :: "('k \<Rightarrow> size_t) \<Rightarrow> 'k \<Rightarrow> ('k, 'v) linear_hash \<Rightarrow> error + 'v option" where
  "get hash k s =
     (case vector_at (table s) (hash2bucket hash s k) of
        Inl e \<Rightarrow> Inl e
      | Inr bucket \<Rightarrow> Inr (find_value k bucket))"

definition in_lh :: "('k \<Rightarrow> size_t) \<Rightarrow> 'k \<Rightarrow> ('k, 'v) linear_hash \<Rightarrow> error + bool" where
  "in_lh hash k s =
     (case vector_at (table s) (hash2bucket hash s k) of
        Inl e \<Rightarrow> Inl e
      | Inr bucket \<Rightarrow> Inr (has_key k bucket))"

definition remove :: "('k \<Rightarrow> size_t) \<Rightarrow> 'k \<Rightarrow> ('k, 'v) linear_hash \<Rightarrow> error + (bool \<times> ('k, 'v) linear_hash)" where
  "remove hash k s =
     (let b = hash2bucket hash s k
      in case vector_at (table s) b of
           Inl e \<Rightarrow> Inl e
         | Inr bucket \<Rightarrow>
             (case find_index_of k bucket of
                None \<Rightarrow> Inr (False, s)
              | Some i \<Rightarrow>
                  Inr (True, s\<lparr>table := (table s)[unat b := swap_pop i bucket],
                               num_elem := num_elem s - 1\<rparr>)))"

section \<open>Forward iterator\<close>

text \<open>
  An \<open>Iterator\<close> holds the pointer \<open>_hm\<close> to its table and two indices. The table is
  passed to each iterator operation as \<open>hm\<close>; the record keeps the indices, so two
  iterators of one table are equal when their indices are.
\<close>

record iterator =
  bucket_idx :: size_t
  entry_idx :: size_t

function go2data :: "'a list list \<Rightarrow> size_t \<Rightarrow> error + size_t" where
  "go2data tbl b =
     (if b < vsize tbl
      then (case vector_at tbl b of
              Inl err \<Rightarrow> Inl err
            | Inr bucket \<Rightarrow> if bucket \<noteq> [] then Inr b else go2data tbl (b + 1))
      else Inr b)"
  by pat_completeness auto
termination
proof (relation "measure (\<lambda>(tbl, b). unat (vsize tbl) - unat b)")
  fix tbl :: "'a list list" and b :: size_t and x2 :: "'a list"
  assume lt: "b < vsize tbl"
  hence "unat b < unat (vsize tbl)" by (simp add: word_less_nat_alt)
  moreover have "unat (vsize tbl) < 2 ^ 64" using unsigned_less[of "vsize tbl"] by simp
  ultimately have "unat (b + 1) = unat b + 1" "unat b < unat (vsize tbl)"
    using unat_add_lem[of b 1] by simp_all
  thus "((tbl, b + 1), (tbl, b)) \<in> measure (\<lambda>(tbl, b). unat (vsize tbl) - unat b)"
    by simp
qed simp

declare go2data.simps [simp del]

definition Iterator :: "('k, 'v) linear_hash \<Rightarrow> size_t \<Rightarrow> size_t \<Rightarrow> error + iterator" where
  "Iterator hm b e =
     (if b < vsize (table hm)
      then (case vector_at (table hm) b of
              Inl err \<Rightarrow> Inl err
            | Inr bucket \<Rightarrow>
                if bucket = []
                then (case go2data (table hm) b of
                        Inl err \<Rightarrow> Inl err
                      | Inr b' \<Rightarrow> Inr \<lparr>bucket_idx = b', entry_idx = e\<rparr>)
                else Inr \<lparr>bucket_idx = b, entry_idx = e\<rparr>)
      else Inr \<lparr>bucket_idx = b, entry_idx = e\<rparr>)"

definition deref :: "('k, 'v) linear_hash \<Rightarrow> iterator \<Rightarrow> error + ('k, 'v) entry" where
  "deref hm it =
     (case vector_at (table hm) (bucket_idx it) of
        Inl err \<Rightarrow> Inl err
      | Inr bucket \<Rightarrow> vector_at bucket (entry_idx it))"

definition increment :: "('k, 'v) linear_hash \<Rightarrow> iterator \<Rightarrow> error + iterator" where
  "increment hm it =
     (let e1 = entry_idx it + 1
      in case vector_at (table hm) (bucket_idx it) of
           Inl err \<Rightarrow> Inl err
         | Inr bucket \<Rightarrow>
             let it1 = (if e1 \<ge> vsize bucket
                        then \<lparr>bucket_idx = bucket_idx it + 1, entry_idx = 0\<rparr>
                        else \<lparr>bucket_idx = bucket_idx it, entry_idx = e1\<rparr>)
             in case go2data (table hm) (bucket_idx it1) of
                  Inl err \<Rightarrow> Inl err
                | Inr b' \<Rightarrow> Inr (it1\<lparr>bucket_idx := b'\<rparr>))"

definition begin_lh :: "('k, 'v) linear_hash \<Rightarrow> error + iterator" where
  "begin_lh hm = Iterator hm 0 0"

definition end_lh :: "('k, 'v) linear_hash \<Rightarrow> error + iterator" where
  "end_lh hm = Iterator hm (vsize (table hm)) 0"

lemma unat_less_Suc:
  fixes b c :: size_t
  assumes "b < c" shows "unat (b + 1) = unat b + 1"
proof -
  have "unat b < unat c" using assms by (simp add: word_less_nat_alt)
  moreover have "unat c < 2 ^ 64" using unsigned_less[of c] by simp
  ultimately show ?thesis using unat_add_lem[of b 1] by simp
qed

lemma go2data_bounds:
  "go2data tbl b = Inr b' \<Longrightarrow> b \<le> b' \<and> (b \<le> vsize tbl \<longrightarrow> b' \<le> vsize tbl)"
proof (induction tbl b rule: go2data.induct)
  case (1 tbl b)
  show ?case
  proof (cases "b < vsize tbl")
    case False
    with "1.prems" show ?thesis by (simp add: go2data.simps[of tbl b])
  next
    case True
    then obtain bucket where at: "vector_at tbl b = Inr bucket"
      by (auto simp: vector_at_def)
    show ?thesis
    proof (cases "bucket = []")
      case False
      with True at "1.prems" show ?thesis by (simp add: go2data.simps[of tbl b])
    next
      case e: True
      with True at "1.prems" have r: "go2data tbl (b + 1) = Inr b'"
        by (simp add: go2data.simps[of tbl b])
      from "1.IH"[OF True at _ r] e have ih: "b + 1 \<le> b'" "b + 1 \<le> vsize tbl \<longrightarrow> b' \<le> vsize tbl"
        by simp_all
      have "b + 1 \<le> vsize tbl" "b \<le> b + 1"
        using True unat_less_Suc[OF True] by (simp_all add: word_le_nat_alt word_less_nat_alt)
      thus ?thesis using ih by auto
    qed
  qed
qed


lemma vector_at_InrD: "vector_at xs i = Inr x \<Longrightarrow> i < vsize xs \<and> x = xs ! unat i"
  by (auto simp: vector_at_def split: if_splits)

lemma vsize_nonempty: "i < vsize xs \<Longrightarrow> xs \<noteq> []"
  by (auto simp: vsize_def)

lemma increment_advances:
  assumes d: "deref hm it = Inr x" and i: "increment hm it = Inr it'"
  shows "unat (vsize (table hm)) - unat (bucket_idx it') < unat (vsize (table hm)) - unat (bucket_idx it)
         \<or> bucket_idx it' = bucket_idx it \<and>
           unat (vsize (table hm ! unat (bucket_idx it))) - unat (entry_idx it')
             < unat (vsize (table hm ! unat (bucket_idx it))) - unat (entry_idx it)"
proof -
  from d obtain bucket where at: "vector_at (table hm) (bucket_idx it) = Inr bucket"
    and ate: "vector_at bucket (entry_idx it) = Inr x"
    by (auto simp: deref_def split: sum.splits)
  from vector_at_InrD[OF at] have b: "bucket_idx it < vsize (table hm)"
    and bk: "bucket = table hm ! unat (bucket_idx it)" by simp_all
  from vector_at_InrD[OF ate] have e: "entry_idx it < vsize bucket" by simp
  have ne: "bucket \<noteq> []" using e by (rule vsize_nonempty)
  show ?thesis
  proof (cases "entry_idx it + 1 \<ge> vsize bucket")
    case True
    have "increment hm it =
            (case go2data (table hm) (bucket_idx it + 1) of
               Inl err \<Rightarrow> Inl err
             | Inr b' \<Rightarrow> Inr \<lparr>bucket_idx = b', entry_idx = 0\<rparr>)"
      using True by (simp add: increment_def Let_def at split: sum.splits)
    with i obtain b' where g: "go2data (table hm) (bucket_idx it + 1) = Inr b'"
      and it': "bucket_idx it' = b'"
      by (cases "go2data (table hm) (bucket_idx it + 1)") auto
    have le: "bucket_idx it + 1 \<le> vsize (table hm)"
      using b unat_less_Suc[OF b] by (simp add: word_le_nat_alt word_less_nat_alt)
    from go2data_bounds[OF g] le have "bucket_idx it + 1 \<le> b'" "b' \<le> vsize (table hm)"
      by simp_all
    hence "unat (bucket_idx it) < unat b'" "unat b' \<le> unat (vsize (table hm))"
      using unat_less_Suc[OF b] by (simp_all add: word_le_nat_alt)
    hence "unat (vsize (table hm)) - unat b' < unat (vsize (table hm)) - unat (bucket_idx it)"
      by linarith
    thus ?thesis using it' by simp
  next
    case False
    have g: "go2data (table hm) (bucket_idx it) = Inr (bucket_idx it)"
      using b at ne by (simp add: go2data.simps[of "table hm" "bucket_idx it"])
    have "increment hm it = Inr \<lparr>bucket_idx = bucket_idx it, entry_idx = entry_idx it + 1\<rparr>"
      using False by (simp add: increment_def Let_def at g)
    with i have 1: "bucket_idx it' = bucket_idx it" and 2: "entry_idx it' = entry_idx it + 1"
      by auto
    have "unat (entry_idx it) < unat (vsize bucket)" using e by (simp add: word_less_nat_alt)
    hence "unat (vsize bucket) - unat (entry_idx it + 1) < unat (vsize bucket) - unat (entry_idx it)"
      using unat_less_Suc[OF e] by linarith
    thus ?thesis using 1 2 bk by simp
  qed
qed

text \<open>The range-based \<open>for\<close> loop over the table: \<open>for (it = begin(); it != end(); ++it)\<close>,
  collecting \<open>*it\<close>.\<close>

function iterate :: "('k, 'v) linear_hash \<Rightarrow> iterator \<Rightarrow> iterator \<Rightarrow> error + ('k, 'v) entry list" where
  "iterate hm it fin =
     (if it = fin then Inr []
      else case deref hm it of
             Inl err \<Rightarrow> Inl err
           | Inr x \<Rightarrow>
               (case increment hm it of
                  Inl err \<Rightarrow> Inl err
                | Inr it' \<Rightarrow>
                    (case iterate hm it' fin of
                       Inl err \<Rightarrow> Inl err
                     | Inr xs \<Rightarrow> Inr (x # xs))))"
  by pat_completeness auto
termination
proof (relation "measures [\<lambda>(hm, it, fin). unat (vsize (table hm)) - unat (bucket_idx it),
                           \<lambda>(hm, it, fin). unat (vsize (table hm ! unat (bucket_idx it))) - unat (entry_idx it)]")
  fix hm :: "('k, 'v) linear_hash" and it fin :: iterator and x :: "('k, 'v) entry" and it' :: iterator
  assume "it \<noteq> fin" and d: "deref hm it = Inr x" and i: "increment hm it = Inr it'"
  from increment_advances[OF d i]
  show "((hm, it', fin), (hm, it, fin))
          \<in> measures [\<lambda>(hm, it, fin). unat (vsize (table hm)) - unat (bucket_idx it),
                       \<lambda>(hm, it, fin). unat (vsize (table hm ! unat (bucket_idx it))) - unat (entry_idx it)]"
    by (elim disjE conjE) simp_all
qed simp

declare iterate.simps [simp del]

definition visit_all :: "('k, 'v) linear_hash \<Rightarrow> error + ('k, 'v) entry list" where
  "visit_all hm =
     (case begin_lh hm of
        Inl err \<Rightarrow> Inl err
      | Inr first \<Rightarrow>
          (case end_lh hm of
             Inl err \<Rightarrow> Inl err
           | Inr fin \<Rightarrow> iterate hm first fin))"

section \<open>Sequences of operations\<close>

datatype ('k, 'v) op = Insert 'k 'v | Remove 'k | Get 'k | In 'k

text \<open>One call on the table; an exception ends the run, as it would reach the caller.\<close>

fun apply_op :: "('k \<Rightarrow> size_t) \<Rightarrow> ('k, 'v) op \<Rightarrow> ('k, 'v) linear_hash \<Rightarrow> error + ('k, 'v) linear_hash" where
  "apply_op hash (Insert k v) s = insert_lh hash k v s"
| "apply_op hash (Remove k) s = (case remove hash k s of Inl e \<Rightarrow> Inl e | Inr (_, s') \<Rightarrow> Inr s')"
| "apply_op hash (Get k) s = (case get hash k s of Inl e \<Rightarrow> Inl e | Inr _ \<Rightarrow> Inr s)"
| "apply_op hash (In k) s = (case in_lh hash k s of Inl e \<Rightarrow> Inl e | Inr _ \<Rightarrow> Inr s)"

fun run :: "('k \<Rightarrow> size_t) \<Rightarrow> ('k, 'v) op list \<Rightarrow> ('k, 'v) linear_hash \<Rightarrow> error + ('k, 'v) linear_hash" where
  "run hash [] s = Inr s"
| "run hash (x # xs) s = (case apply_op hash x s of Inl e \<Rightarrow> Inl e | Inr s' \<Rightarrow> run hash xs s')"

text \<open>
  What \<open>get\<close> is expected to return after a sequence of operations: the value of the
  last \<open>insert\<close> of the key when no \<open>remove\<close> of the key follows it, and nothing when
  the key was never inserted or a \<open>remove\<close> came last.
\<close>

fun writes_key :: "'k \<Rightarrow> ('k, 'v) op \<Rightarrow> bool" where
  "writes_key k (Insert k' v) = (k' = k)"
| "writes_key k (Remove k') = (k' = k)"
| "writes_key k (Get k') = False"
| "writes_key k (In k') = False"

definition last_write :: "'k \<Rightarrow> ('k, 'v) op list \<Rightarrow> 'v option" where
  "last_write k ops =
     (case filter (writes_key k) (rev ops) of
        Insert _ v # _ \<Rightarrow> Some v
      | _ \<Rightarrow> None)"

text \<open>The same operations on a finite map, for comparison.\<close>

fun model_step :: "('k, 'v) op \<Rightarrow> ('k \<rightharpoonup> 'v) \<Rightarrow> ('k \<rightharpoonup> 'v)" where
  "model_step (Insert k v) m = m(k \<mapsto> v)"
| "model_step (Remove k) m = m(k := None)"
| "model_step (Get k) m = m"
| "model_step (In k) m = m"

section \<open>State invariants\<close>

text \<open>Invariants 1 to 3 of the data model, over the machine words of the source.\<close>

definition inv_pow2 :: "('k, 'v) linear_hash \<Rightarrow> bool" where
  "inv_pow2 s \<longleftrightarrow> (\<exists>m<64. init_size s = 2 ^ m)"

definition inv_length :: "('k, 'v) linear_hash \<Rightarrow> bool" where
  "inv_length s \<longleftrightarrow>
     length (table s) = unat (push_bit (unat (depth s)) (init_size s)) + unat (split_ptr s)"

definition inv_split_ptr :: "('k, 'v) linear_hash \<Rightarrow> bool" where
  "inv_split_ptr s \<longleftrightarrow> split_ptr s < push_bit (unat (depth s)) (init_size s)"

text \<open>
  The same three with the exponent \<open>m\<close> of \<open>init_size\<close> named and the sizes read as
  natural numbers: no shift or sum wraps.
\<close>

definition geometry :: "('k, 'v) linear_hash \<Rightarrow> nat \<Rightarrow> bool" where
  "geometry s m \<longleftrightarrow>
     init_size s = 2 ^ m \<and>
     length (table s) = 2 ^ (m + unat (depth s)) + unat (split_ptr s) \<and>
     unat (split_ptr s) < 2 ^ (m + unat (depth s)) \<and>
     length (table s) < 2 ^ 64"

text \<open>Invariant 4: every entry lies in the bucket its key is addressed to.\<close>

definition placed :: "('k \<Rightarrow> size_t) \<Rightarrow> ('k, 'v) linear_hash \<Rightarrow> bool" where
  "placed hash s \<longleftrightarrow>
     (\<forall>b<length (table s). \<forall>e\<in>set (table s ! b). unat (hash2bucket hash s (key e)) = b)"

text \<open>Invariant 5: keys are unique within a bucket, and no key lies in two buckets.\<close>

definition bucket_distinct :: "('k, 'v) linear_hash \<Rightarrow> bool" where
  "bucket_distinct s \<longleftrightarrow> (\<forall>b\<in>set (table s). distinct (map key b))"

definition one_bucket_per_key :: "('k, 'v) linear_hash \<Rightarrow> bool" where
  "one_bucket_per_key s \<longleftrightarrow>
     (\<forall>b1<length (table s). \<forall>b2<length (table s).
        \<forall>e1\<in>set (table s ! b1). \<forall>e2\<in>set (table s ! b2). key e1 = key e2 \<longrightarrow> b1 = b2)"

text \<open>Invariant 6: \<open>num_elem\<close> is the number of entries in the buckets.\<close>

definition counted :: "('k, 'v) linear_hash \<Rightarrow> bool" where
  "counted s \<longleftrightarrow> unat (num_elem s) = length (concat (table s))"

definition lh_inv :: "('k \<Rightarrow> size_t) \<Rightarrow> ('k, 'v) linear_hash \<Rightarrow> bool" where
  "lh_inv hash s \<longleftrightarrow> (\<exists>m<64. geometry s m) \<and> placed hash s \<and> bucket_distinct s"

section \<open>Helper lemmas\<close>

subsection \<open>Rounding to \<open>double\<close>\<close>

lemma pow2_powi: "pow2 e = 2 powi e"
  by (simp add: pow2_def power_int_def field_simps)

lemma pow2_pos: "0 < pow2 e"
  by (simp add: pow2_powi)

lemma pow2_add: "pow2 (a + b) = pow2 a * pow2 b"
  by (simp add: pow2_powi power_int_add)

lemma pow2_nat: "0 \<le> e \<Longrightarrow> pow2 e = 2 ^ nat e"
  by (simp add: pow2_def)

text \<open>\<open>floor_log2 q\<close> is the integer \<open>k\<close> with \<open>2 ^ k \<le> q < 2 ^ (k + 1)\<close>.\<close>
lemma floor_log2_bounds:
  assumes "0 < q"
  shows "pow2 (floor_log2 q) \<le> q \<and> q < pow2 (floor_log2 q + 1)"
proof -
  obtain a b where ab: "quotient_of q = (a, b)" by (cases "quotient_of q")
  have bpos: "0 < b" using ab quotient_of_denom_pos by blast
  have q: "q = of_int a / of_int b" using ab by (rule quotient_of_div)
  have apos: "0 < a" using assms bpos q by (simp add: zero_less_divide_iff)
  let ?la = "bitlen a" and ?lb = "bitlen b"
  have la: "1 \<le> ?la" "1 \<le> ?lb" using apos bpos by (simp_all add: bitlen_alt_def)
  from bitlen_bounds[OF apos]
  have a1: "(2::int) ^ nat (?la - 1) \<le> a" and a2: "a < 2 ^ nat ?la" by simp_all
  from bitlen_bounds[OF bpos]
  have b1: "(2::int) ^ nat (?lb - 1) \<le> b" and b2: "b < 2 ^ nat ?lb" by simp_all
  have ra1: "pow2 (?la - 1) \<le> of_int a"
    using of_int_le_iff[where ?'a = rat, THEN iffD2, OF a1] la by (simp add: pow2_nat)
  have ra2: "of_int a < pow2 ?la"
    using of_int_less_iff[where ?'a = rat, THEN iffD2, OF a2] la by (simp add: pow2_nat)
  have rb1: "pow2 (?lb - 1) \<le> of_int b"
    using of_int_le_iff[where ?'a = rat, THEN iffD2, OF b1] la by (simp add: pow2_nat)
  have rb2: "of_int b < pow2 ?lb"
    using of_int_less_iff[where ?'a = rat, THEN iffD2, OF b2] la by (simp add: pow2_nat)
  have lo: "pow2 (?la - ?lb - 1) \<le> q"
  proof -
    have "pow2 (?la - ?lb - 1) * of_int b \<le> pow2 (?la - ?lb - 1) * pow2 ?lb"
      using rb2 pow2_pos[of "?la - ?lb - 1"] by (simp add: less_imp_le)
    also have "\<dots> = pow2 (?la - 1)" by (simp add: pow2_add[symmetric])
    also have "\<dots> \<le> of_int a" by (rule ra1)
    finally show ?thesis using bpos by (simp add: q pos_le_divide_eq)
  qed
  have hi: "q < pow2 (?la - ?lb + 1)"
  proof -
    have "of_int a < pow2 ?la" by (rule ra2)
    also have "\<dots> = pow2 (?la - ?lb + 1) * pow2 (?lb - 1)" by (simp add: pow2_add[symmetric])
    also have "\<dots> \<le> pow2 (?la - ?lb + 1) * of_int b"
      using rb1 pow2_pos[of "?la - ?lb + 1"] by simp
    finally show ?thesis using bpos by (simp add: q pos_divide_less_eq)
  qed
  show ?thesis
  proof (cases "pow2 (?la - ?lb) \<le> q")
    case True
    thus ?thesis using hi by (simp add: floor_log2_def ab)
  next
    case False
    hence "q < pow2 (?la - ?lb - 1 + 1)" by simp
    thus ?thesis using False lo by (simp add: floor_log2_def ab)
  qed
qed

lemma round_half_even_near: "\<bar>of_int (round_half_even q) - q\<bar> \<le> 1 / 2"
  unfolding round_half_even_def Let_def by (auto simp: abs_if; linarith)

lemma round_half_even_bounds:
  "\<lfloor>x\<rfloor> \<le> round_half_even x \<and> round_half_even x \<le> \<lfloor>x\<rfloor> + 1"
  by (simp add: round_half_even_def Let_def)

lemma pow2_mono: "a \<le> b \<Longrightarrow> pow2 a \<le> pow2 b"
  by (simp add: pow2_powi power_int_increasing)

text \<open>The result of \<open>round_to_double\<close> is \<open>\<plusminus> m * 2 ^ e\<close> with a significand \<open>m\<close> of at most
  53 bits (of exactly 53 bits above the subnormal range) and an error of at most half a
  unit in the last place.\<close>
lemma round_to_double_nearest:
  assumes q: "q \<noteq> 0"
    and e: "e = max (floor_log2 \<bar>q\<bar> - 52) (- 1074)"
    and m: "m = round_half_even (\<bar>q\<bar> / pow2 e)"
  shows "round_to_double q =
           (if 971 < e \<or> (e = 971 \<and> m = 2 ^ 53) then (if 0 < q then PlusInf else MinusInf)
            else Finite (sgn q * (of_int m * pow2 e)))"
    and "0 \<le> m \<and> m \<le> 2 ^ 53"
    and "- 1074 < e \<longrightarrow> 2 ^ 52 \<le> m"
    and "\<bar>of_int m * pow2 e - \<bar>q\<bar>\<bar> \<le> pow2 e / 2"
proof -
  let ?a = "\<bar>q\<bar>" and ?k = "floor_log2 \<bar>q\<bar>"
  have apos: "0 < ?a" using q by simp
  note fl = floor_log2_bounds[OF apos]
  let ?x = "?a / pow2 e"
  have ep: "0 < pow2 e" by (rule pow2_pos)
  show "round_to_double q =
           (if 971 < e \<or> (e = 971 \<and> m = 2 ^ 53) then (if 0 < q then PlusInf else MinusInf)
            else Finite (sgn q * (of_int m * pow2 e)))"
    using q by (simp add: round_to_double_def Let_def e[symmetric] m[symmetric])
  have xpos: "0 < ?x" using apos ep by simp
  have "?k + 1 \<le> e + 53" using e by simp
  hence "pow2 (?k + 1) \<le> pow2 (e + 53)" by (rule pow2_mono)
  hence "?a < pow2 e * 2 ^ 53" using fl by (simp add: pow2_add pow2_nat)
  hence xhi: "?x < 2 ^ 53" using ep by (simp add: pos_divide_less_eq mult.commute)
  hence f1: "\<lfloor>?x\<rfloor> < 2 ^ 53" by (simp add: floor_less_iff)
  have f0: "0 \<le> \<lfloor>?x\<rfloor>" using xpos by simp
  show "0 \<le> m \<and> m \<le> 2 ^ 53"
    using round_half_even_bounds[of ?x] f1 f0 unfolding m by linarith
  show "- 1074 < e \<longrightarrow> 2 ^ 52 \<le> m"
  proof
    assume "- 1074 < e"
    hence k: "e + 52 = ?k" using e by (simp add: max_def split: if_splits)
    have "pow2 e * 2 ^ 52 = pow2 (e + 52)" by (simp add: pow2_add pow2_nat)
    hence "pow2 e * 2 ^ 52 = pow2 ?k" by (simp only: k)
    hence "pow2 e * 2 ^ 52 \<le> ?a" using fl by simp
    hence "2 ^ 52 \<le> ?x" using ep by (simp add: pos_le_divide_eq mult.commute)
    hence "2 ^ 52 \<le> \<lfloor>?x\<rfloor>" by (simp add: le_floor_iff)
    thus "2 ^ 52 \<le> m" using round_half_even_bounds[of ?x] unfolding m by linarith
  qed
  have "\<bar>of_int m * pow2 e - ?a\<bar> = pow2 e * \<bar>of_int m - ?x\<bar>"
  proof -
    have "of_int m * pow2 e - ?a = pow2 e * (of_int m - ?x)" using ep by (simp add: field_simps)
    thus ?thesis using ep by (simp add: abs_mult)
  qed
  also have "\<dots> \<le> pow2 e * (1 / 2)"
    using round_half_even_near[of ?x] ep unfolding m by (intro mult_left_mono) simp_all
  finally show "\<bar>of_int m * pow2 e - \<bar>q\<bar>\<bar> \<le> pow2 e / 2" by simp
qed

text \<open>Values of the rounding: \<open>1.0 / 3.0\<close> and \<open>0.1\<close>, a tie above \<open>2 ^ 53\<close> in both
  directions, and the cast of the largest \<open>size_t\<close>.\<close>
lemma round_to_double_examples:
  "round_to_double (1 / 3) = Finite (6004799503160661 / 18014398509481984)"
  "round_to_double (1 / 10) = Finite (3602879701896397 / 36028797018963968)"
  "round_to_double 9007199254740993 = Finite 9007199254740992"
  "round_to_double 9007199254740995 = Finite 9007199254740996"
  by code_simp+

lemma double_of_size_t_max:
  "double_of_size_t 18446744073709551615 = Finite 18446744073709551616"
proof -
  have "unat (18446744073709551615 :: size_t) = 18446744073709551615" by simp
  hence "double_of_size_t 18446744073709551615 = round_to_double 18446744073709551615"
    by (simp add: double_of_size_t_def)
  also have "\<dots> = Finite 18446744073709551616" by code_simp
  finally show ?thesis .
qed

subsection \<open>Word arithmetic\<close>

lemma unat_pow2: 
  assumes "n < 64" shows "unat (2 ^ n :: size_t) = 2 ^ n"
proof -
  have "unat (2 ^ n :: size_t) = unat (word_of_nat (2 ^ n) :: size_t)" by simp
  also have "\<dots> = 2 ^ n mod 2 ^ LENGTH(64)" by (rule unat_of_nat)
  also have "\<dots> = 2 ^ n"
  proof -
    have "(2::nat) ^ n < 2 ^ 64" using assms by (intro power_strict_increasing) auto
    thus ?thesis by simp
  qed
  finally show ?thesis .
qed

lemma pow2_less_64: "(2::nat) ^ n < 2 ^ 64 \<Longrightarrow> n < 64"
  using power_less_imp_less_exp[of "2::nat" n 64] by simp

lemma unat_vsize: "length xs < 2 ^ 64 \<Longrightarrow> unat (vsize xs) = length xs"
  by (simp add: vsize_def unat_of_nat)

lemma vector_at_Inr: "length xs < 2 ^ 64 \<Longrightarrow> unat i < length xs \<Longrightarrow> vector_at xs i = Inr (xs ! unat i)"
  by (simp add: vector_at_def word_less_nat_alt unat_vsize)

lemma vector_at_Inl: "length xs < 2 ^ 64 \<Longrightarrow> \<not> unat i < length xs \<Longrightarrow> vector_at xs i = Inl OutOfRange"
  by (simp add: vector_at_def word_less_nat_alt unat_vsize)

lemma unat_Suc_word: "unat (w::size_t) + 1 < 2 ^ 64 \<Longrightarrow> unat (w + 1) = unat w + 1"
  using unat_add_lem[of w 1] by simp

lemma plus1_or: "push_bit 1 (m::size_t) + 1 = push_bit 1 m OR 1"
  by (simp add: push_bit_eq_mult one_or_eq or_one_eq)

lemma push_bit_pow2: "push_bit d (2 ^ m :: size_t) = 2 ^ (m + d)"
  by (simp add: push_bit_eq_mult power_add mult.commute)

lemma pow2_mask: "push_bit d (2 ^ m :: size_t) - 1 = mask (m + d)"
  by (simp add: push_bit_eq_mult mask_eq_exp_minus_1 power_add mult.commute)

lemma himask: "push_bit 1 (mask n :: size_t) + 1 = mask (Suc n)"
  by (simp add: mask_eq_exp_minus_1 push_bit_eq_mult algebra_simps)

lemma unat_and_mask: "unat ((w::size_t) AND mask n) = unat w mod 2 ^ n"
  by (metis take_bit_eq_mask unsigned_take_bit_eq take_bit_eq_mod)

lemma and_pow2_bit: "((w::size_t) AND 2 ^ n \<noteq> 0) = odd (unat w div 2 ^ n)"
proof -
  have "((w::size_t) AND 2 ^ n \<noteq> 0) = bit w n"
    by (simp add: and_exp_eq_0_iff_not_bit)
  also have "\<dots> = bit (unat w) n"
    by (simp add: bit_unsigned_iff)
  also have "\<dots> = odd (unat w div 2 ^ n)"
    by (simp add: bit_iff_odd)
  finally show ?thesis .
qed

lemma mod_double: "(x::nat) mod 2 ^ Suc n = x mod 2 ^ n + (if odd (x div 2 ^ n) then 2 ^ n else 0)"
proof -
  have "x mod (2 ^ n * 2) = 2 ^ n * (x div 2 ^ n mod 2) + x mod 2 ^ n"
    by (rule mod_mult2_eq)
  thus ?thesis by (auto simp: mult.commute odd_iff_mod_2_eq_one)
qed

lemma nat_pow2_and: "(x::nat) \<noteq> 0 \<Longrightarrow> (x AND (x - 1) = 0) = (\<exists>n. x = 2 ^ n)"
proof (induction x rule: less_induct)
  case (less x)
  show ?case
  proof (cases "even x")
    case True
    then obtain y where y: "x = 2 * y" by auto
    with less.prems have y0: "y \<noteq> 0" by simp
    have d: "(2 * y - Suc 0) div 2 = y - Suc 0" using y0 by (cases y) auto
    have "x AND (x - 1) = 2 * (y AND (y - 1))"
      by (subst and_rec) (simp add: y d True)
    hence "(x AND (x - 1) = 0) = (\<exists>n. y = 2 ^ n)"
      using less.IH[of y] y y0 by simp
    also have "\<dots> = (\<exists>n. x = 2 ^ n)"
    proof
      assume "\<exists>n. y = 2 ^ n"
      then obtain n where "y = 2 ^ n" ..
      hence "x = 2 ^ Suc n" using y by simp
      thus "\<exists>n. x = 2 ^ n" ..
    next
      assume "\<exists>n. x = 2 ^ n"
      then obtain n where n: "x = 2 ^ n" ..
      with True have "n \<noteq> 0" by (cases n) auto
      then obtain k where "n = Suc k" by (cases n) auto
      with n y have "y = 2 ^ k" by simp
      thus "\<exists>n. y = 2 ^ n" ..
    qed
    finally show ?thesis .
  next
    case False
    then obtain y where y: "x = 2 * y + 1" by (auto elim: oddE)
    have "x AND (x - 1) = 2 * y"
      by (subst and_rec) (simp add: y)
    hence "(x AND (x - 1) = 0) = (y = 0)" by simp
    also have "\<dots> = (\<exists>n. x = 2 ^ n)"
    proof
      assume "y = 0"
      hence "x = 2 ^ 0" using y by simp
      thus "\<exists>n. x = 2 ^ n" ..
    next
      assume "\<exists>n. x = 2 ^ n"
      then obtain n where n: "x = 2 ^ n" ..
      with False have "n = 0" by (cases n) auto
      with n y show "y = 0" by simp
    qed
    finally show ?thesis .
  qed
qed

lemma word_pow2_and:
  fixes x :: size_t
  assumes "x \<noteq> 0"
  shows "(x AND (x - 1) = 0) = (\<exists>n<64. x = 2 ^ n)"
proof -
  have x0: "unat x \<noteq> 0" using assms by (simp add: unat_eq_0)
  have u1: "unat (x - 1) = unat x - 1"
    using x0 by (simp add: unat_minus_one assms)
  have "(x AND (x - 1) = 0) = (unat (x AND (x - 1)) = 0)"
    by (simp add: unat_eq_0)
  also have "\<dots> = (unat x AND (unat x - 1) = 0)"
    by (simp add: unsigned_and_eq u1)
  also have "\<dots> = (\<exists>n. unat x = 2 ^ n)"
    by (rule nat_pow2_and[OF x0])
  also have "\<dots> = (\<exists>n<64. x = 2 ^ n)"
  proof
    assume "\<exists>n. unat x = 2 ^ n"
    then obtain n where n: "unat x = 2 ^ n" ..
    have "(2::nat) ^ n < 2 ^ LENGTH(64)" by (metis unsigned_less n)
    hence "n < LENGTH(64)" by (rule power_less_imp_less_exp[rotated]) simp
    hence n64: "n < 64" by simp
    moreover have "x = 2 ^ n" using n n64
      by (simp add: word_unat_eq_iff unat_pow2)
    ultimately show "\<exists>n<64. x = 2 ^ n" by blast
  next
    assume "\<exists>n<64. x = 2 ^ n"
    then obtain n where "n < 64" "x = 2 ^ n" by blast
    hence "unat x = 2 ^ n" by (simp add: unat_pow2)
    thus "\<exists>n. unat x = 2 ^ n" ..
  qed
  finally show ?thesis .
qed


subsection \<open>Addressing as arithmetic\<close>

lemma hash2bucket_unat:
  assumes "init_size s = 2 ^ m"
  shows "unat (hash2bucket hash s k) =
     (let x = unat (hash k); n = m + unat (depth s)
      in if x mod 2 ^ n < unat (split_ptr s) then x mod 2 ^ Suc n else x mod 2 ^ n)"
  unfolding hash2bucket_def Let_def assms pow2_mask himask word_less_nat_alt
  by (simp only: unat_and_mask if_distrib[of unat])

lemma hash2bucket_cong:
  "init_size s' = init_size s \<Longrightarrow> depth s' = depth s \<Longrightarrow> split_ptr s' = split_ptr s \<Longrightarrow>
   hash2bucket hash s' k = hash2bucket hash s k"
  by (simp add: hash2bucket_def)

lemma geometry_exp: 
  assumes "geometry s m" shows "m + unat (depth s) < 64"
proof -
  have "(2::nat) ^ (m + unat (depth s)) < 2 ^ 64" using assms by (simp add: geometry_def)
  thus ?thesis by (rule pow2_less_64)
qed

lemma lh_invI:
  assumes "geometry s m" "placed hash s" "bucket_distinct s"
  shows "lh_inv hash s"
proof -
  have "m < 64" using geometry_exp[OF assms(1)] by simp
  with assms show ?thesis by (auto simp: lh_inv_def)
qed

lemma geometry_shift:
  assumes "geometry s m"
  shows "unat (push_bit (unat (depth s)) (init_size s)) = 2 ^ (m + unat (depth s))"
  using assms geometry_exp[OF assms] by (simp add: geometry_def push_bit_pow2 unat_pow2)

lemma geometry_of_inv:
  assumes "inv_pow2 s" "inv_length s" "inv_split_ptr s"
  shows "\<exists>m. geometry s m"
proof -
  from assms(1) obtain m where m: "m < 64" "init_size s = 2 ^ m"
    by (auto simp: inv_pow2_def)
  let ?n = "m + unat (depth s)"
  have L: "push_bit (unat (depth s)) (init_size s) = 2 ^ ?n"
    by (simp add: m push_bit_pow2)
  have n64: "?n < 64"
  proof (rule ccontr)
    assume "\<not> ?n < 64"
    hence "(2::size_t) ^ ?n = 0" by (simp only: exp_eq_zero_iff) simp
    with assms(3) L show False by (simp add: inv_split_ptr_def)
  qed
  have uL: "unat (push_bit (unat (depth s)) (init_size s)) = 2 ^ ?n"
    by (simp only: L unat_pow2[OF n64])
  have sp: "unat (split_ptr s) < 2 ^ ?n"
    using assms(3) uL by (simp add: inv_split_ptr_def word_less_nat_alt)
  have len: "length (table s) = 2 ^ ?n + unat (split_ptr s)"
    using assms(2) uL by (simp add: inv_length_def)
  have "(2::nat) ^ ?n + 2 ^ ?n \<le> 2 ^ 64"
  proof -
    have "(2::nat) ^ Suc ?n \<le> 2 ^ 64" using n64 by (intro power_increasing) auto
    thus ?thesis by simp
  qed
  hence "length (table s) < 2 ^ 64" using len sp by linarith
  hence "geometry s m" using m len sp by (simp add: geometry_def)
  thus ?thesis ..
qed

lemma geometry_inv:
  assumes "geometry s m"
  shows "inv_pow2 s \<and> inv_length s \<and> inv_split_ptr s"
proof -
  have "m < 64" using geometry_exp[OF assms] by simp
  hence "inv_pow2 s" using assms by (auto simp: inv_pow2_def geometry_def)
  moreover have "inv_length s"
    unfolding inv_length_def geometry_shift[OF assms] using assms by (simp add: geometry_def)
  moreover have "inv_split_ptr s"
    unfolding inv_split_ptr_def word_less_nat_alt geometry_shift[OF assms]
    using assms by (simp add: geometry_def)
  ultimately show ?thesis by simp
qed

lemma hash2bucket_in_range:
  assumes "geometry s m"
  shows "unat (hash2bucket hash s k) < length (table s)"
proof -
  let ?n = "m + unat (depth s)" and ?x = "unat (hash k)"
  have i: "init_size s = 2 ^ m" and len: "length (table s) = 2 ^ ?n + unat (split_ptr s)"
    using assms by (simp_all add: geometry_def)
  have lo: "?x mod 2 ^ ?n < 2 ^ ?n" by simp
  have hi: "?x mod 2 ^ Suc ?n \<le> ?x mod 2 ^ ?n + 2 ^ ?n"
    by (simp only: mod_double split: if_split) simp
  show ?thesis
  proof (cases "?x mod 2 ^ ?n < unat (split_ptr s)")
    case True
    hence "unat (hash2bucket hash s k) = ?x mod 2 ^ Suc ?n"
      by (simp only: hash2bucket_unat[OF i] Let_def if_True)
    thus ?thesis using True hi len by linarith
  next
    case False
    hence "unat (hash2bucket hash s k) = ?x mod 2 ^ ?n"
      by (simp only: hash2bucket_unat[OF i] Let_def if_False)
    thus ?thesis using lo len by linarith
  qed
qed

lemma get_no_error:
  assumes "geometry s m"
  shows "get hash k s = Inr (find_value k (table s ! unat (hash2bucket hash s k)))"
  using assms hash2bucket_in_range[OF assms, of hash k]
  by (simp add: get_def vector_at_Inr geometry_def)

lemma in_no_error:
  assumes "geometry s m"
  shows "in_lh hash k s = Inr (has_key k (table s ! unat (hash2bucket hash s k)))"
  using assms hash2bucket_in_range[OF assms, of hash k]
  by (simp add: in_lh_def vector_at_Inr geometry_def)

lemma vector_at_bucket:
  assumes "geometry s m"
  shows "vector_at (table s) (hash2bucket hash s k) = Inr (table s ! unat (hash2bucket hash s k))"
  using assms hash2bucket_in_range[OF assms, of hash k]
  by (simp add: vector_at_Inr geometry_def)

lemma remove_no_error:
  assumes "geometry s m"
  shows "\<exists>r. remove hash k s = Inr r"
  by (cases "find_index_of k (table s ! unat (hash2bucket hash s k))")
     (auto simp: remove_def Let_def vector_at_bucket[OF assms])

subsection \<open>Bucket scans\<close>

lemma overwrite_None_iff: "overwrite k v xs = None \<longleftrightarrow> k \<notin> key ` set xs"
  by (induction xs) auto

lemma find_value_None_iff: "find_value k xs = None \<longleftrightarrow> k \<notin> key ` set xs"
  by (induction xs) auto

lemma has_key_iff: "has_key k xs \<longleftrightarrow> k \<in> key ` set xs"
  by (induction xs) auto

lemma find_index_of_None_iff: "find_index_of k xs = None \<longleftrightarrow> k \<notin> key ` set xs"
  by (induction xs) auto

lemma find_index_of_Some:
  "find_index_of k xs = Some i \<Longrightarrow> i < length xs \<and> key (xs ! i) = k \<and> (\<forall>j<i. key (xs ! j) \<noteq> k)"
proof (induction xs arbitrary: i)
  case Nil
  then show ?case by simp
next
  case (Cons e es)
  show ?case
  proof (cases "key e = k")
    case True
    with Cons.prems show ?thesis by simp
  next
    case False
    with Cons.prems obtain j where j: "find_index_of k es = Some j" "i = Suc j" by auto
    from Cons.IH[OF j(1)] False j(2) show ?thesis by (auto simp: less_Suc_eq_0_disj)
  qed
qed

lemma overwrite_Some:
  "overwrite k v xs = Some ys \<Longrightarrow>
     map key ys = map key xs \<and> find_value k ys = Some v \<and>
     (\<forall>k'. k' \<noteq> k \<longrightarrow> find_value k' ys = find_value k' xs)"
proof (induction xs arbitrary: ys)
  case Nil
  then show ?case by simp
next
  case (Cons e es)
  show ?case
  proof (cases "key e = k")
    case True
    with Cons.prems show ?thesis by auto
  next
    case False
    with Cons.prems obtain zs where zs: "overwrite k v es = Some zs" "ys = e # zs" by auto
    from Cons.IH[OF zs(1)] False zs(2) show ?thesis by auto
  qed
qed

lemma overwrite_same: "find_value k xs = Some v \<Longrightarrow> overwrite k v xs = Some xs"
  by (induction xs) (auto split: if_splits)

lemma find_value_snoc:
  "find_value k' (xs @ [Entry k v]) =
     (case find_value k' xs of Some r \<Rightarrow> Some r | None \<Rightarrow> if k' = k then Some v else None)"
  by (induction xs) auto

lemma find_value_filter:
  "Q k \<Longrightarrow> find_value k (filter (\<lambda>e. Q (key e)) xs) = find_value k xs"
  by (induction xs) auto

lemma find_value_Some_iff:
  "distinct (map key xs) \<Longrightarrow> find_value k xs = Some v \<longleftrightarrow> Entry k v \<in> set xs"
proof (induction xs)
  case Nil
  then show ?case by simp
next
  case (Cons e es)
  then show ?case by (cases e) (auto simp: image_iff)
qed

lemma find_value_eqI:
  assumes "distinct (map key xs)" "distinct (map key ys)"
    and "\<And>e. key e = k \<Longrightarrow> e \<in> set xs \<longleftrightarrow> e \<in> set ys"
  shows "find_value k xs = find_value k ys"
proof -
  have *: "find_value k xs = Some v \<longleftrightarrow> find_value k ys = Some v" for v
    using assms(3)[of "Entry k v"]
    by (simp add: find_value_Some_iff[OF assms(1)] find_value_Some_iff[OF assms(2)])
  show ?thesis
  proof (cases "find_value k xs")
    case None
    hence "find_value k ys \<noteq> Some v" for v using *[of v] by simp
    hence "find_value k ys = None" by (cases "find_value k ys") auto
    with None show ?thesis by simp
  next
    case (Some v)
    with *[of v] show ?thesis by simp
  qed
qed

subsection \<open>Swap and pop\<close>

lemma swap_pop_snoc:
  "swap_pop i (ys @ [l]) = (if i < length ys then ys[i := l] else ys)"
proof (cases "i < length ys")
  case True
  thus ?thesis by (simp add: swap_pop_def list_update_append1)
next
  case False
  have "[l][j := l] = [l]" for j by (cases j) simp_all
  with False show ?thesis by (simp add: swap_pop_def list_update_append)
qed

lemma swap_pop_length: "xs \<noteq> [] \<Longrightarrow> length (swap_pop i xs) = length xs - 1"
  by (simp add: swap_pop_def)

lemma mset_swap_pop:
  assumes "i < length xs"
  shows "mset (swap_pop i xs) = mset xs - {#xs ! i#}"
proof (cases xs rule: rev_cases)
  case Nil
  with assms show ?thesis by simp
next
  case (snoc ys l)
  show ?thesis
  proof (cases "i < length ys")
    case True
    thus ?thesis by (simp add: snoc swap_pop_snoc mset_update nth_append)
  next
    case False
    with assms snoc have "i = length ys" by simp
    thus ?thesis by (simp add: snoc swap_pop_snoc)
  qed
qed

lemma set_swap_pop:
  assumes "distinct xs" "i < length xs"
  shows "set (swap_pop i xs) = set xs - {xs ! i}"
proof (cases xs rule: rev_cases)
  case Nil
  with assms show ?thesis by simp
next
  case (snoc ys l)
  with assms have d: "distinct ys" "l \<notin> set ys" by simp_all
  show ?thesis
  proof (cases "i < length ys")
    case True
    hence "ys ! i \<in> set ys" by simp
    with d have "l \<noteq> ys ! i" by auto
    with True d show ?thesis
      by (auto simp: snoc swap_pop_snoc nth_append set_update_distinct)
  next
    case False
    with assms snoc have "i = length ys" by simp
    with d show ?thesis by (auto simp: snoc swap_pop_snoc)
  qed
qed

lemma distinct_swap_pop:
  assumes "distinct xs"
  shows "distinct (swap_pop i xs)"
proof (cases xs rule: rev_cases)
  case Nil
  thus ?thesis by (simp add: swap_pop_def)
next
  case (snoc ys l)
  with assms have d: "distinct ys" "l \<notin> set ys" by simp_all
  thus ?thesis by (auto simp: snoc swap_pop_snoc intro: distinct_list_update)
qed

lemma map_swap_pop: "map f (swap_pop i xs) = swap_pop i (map f xs)"
proof (cases xs rule: rev_cases)
  case Nil
  thus ?thesis by (simp add: swap_pop_def)
next
  case (snoc ys l)
  have "map f (swap_pop i (ys @ [l])) = swap_pop i (map f ys @ [f l])"
    unfolding swap_pop_snoc by (simp add: map_update)
  thus ?thesis by (simp add: snoc)
qed

lemma swap_pop_bucket:
  assumes d: "distinct (map key xs)" and i: "find_index_of k xs = Some i"
  shows "distinct (map key (swap_pop i xs))"
    and "find_value k (swap_pop i xs) = None"
    and "k' \<noteq> k \<Longrightarrow> find_value k' (swap_pop i xs) = find_value k' xs"
    and "key ` set (swap_pop i xs) = key ` set xs - {k}"
proof -
  from find_index_of_Some[OF i] have il: "i < length xs" and ki: "key (xs ! i) = k" by simp_all
  from d have dx: "distinct xs" by (simp add: distinct_map)
  show d': "distinct (map key (swap_pop i xs))"
    unfolding map_swap_pop using d by (rule distinct_swap_pop)
  have s: "set (swap_pop i xs) = set xs - {xs ! i}" by (rule set_swap_pop[OF dx il])
  have uniq: "e = xs ! i" if "e \<in> set xs" "key e = k" for e
  proof -
    from that(1) obtain j where j: "j < length xs" "xs ! j = e" by (auto simp: in_set_conv_nth)
    have "j = i" using nth_eq_iff_index_eq[OF d, of j i] j il ki that(2) by simp
    with j show ?thesis by simp
  qed
  show ks: "key ` set (swap_pop i xs) = key ` set xs - {k}"
    unfolding s using uniq ki by auto
  show "find_value k (swap_pop i xs) = None"
    unfolding find_value_None_iff ks by simp
  show "find_value k' (swap_pop i xs) = find_value k' xs" if "k' \<noteq> k"
  proof (rule find_value_eqI[OF d' d])
    fix e :: "('a, 'b) entry" assume "key e = k'"
    with that ki have "e \<noteq> xs ! i" by auto
    thus "e \<in> set (swap_pop i xs) \<longleftrightarrow> e \<in> set xs" unfolding s by simp
  qed
qed

subsection \<open>Replacing one bucket\<close>

lemma length_concat_update:
  assumes "i < length xs"
  shows "length (concat (xs[i := ys])) + length (xs ! i) = length (concat xs) + length ys"
proof -
  have "xs = take i xs @ xs ! i # drop (Suc i) xs"
    using assms by (simp add: id_take_nth_drop)
  moreover have "xs[i := ys] = take i xs @ ys # drop (Suc i) xs"
    using assms by (simp add: upd_conv_take_nth_drop)
  ultimately have "length (concat xs) = length (concat (take i xs)) + length (xs ! i) +
                     length (concat (drop (Suc i) xs))"
    and "length (concat (xs[i := ys])) = length (concat (take i xs)) + length ys +
                     length (concat (drop (Suc i) xs))"
    by (metis concat.simps(2) concat_append length_append add.assoc)+
  thus ?thesis by simp
qed

lemma placed_bucket_upd:
  assumes "placed hash s" "i < length (table s)"
    and "\<forall>e\<in>set bkt. unat (hash2bucket hash s (key e)) = i"
    and "init_size s' = init_size s" "depth s' = depth s" "split_ptr s' = split_ptr s"
    and "table s' = (table s)[i := bkt]"
  shows "placed hash s'"
proof -
  have h: "hash2bucket hash s' k = hash2bucket hash s k" for k
    using assms(4-6) by (rule hash2bucket_cong)
  show ?thesis
    unfolding placed_def h assms(7)
    using assms(1-3) by (auto simp: placed_def nth_list_update)
qed

lemma bucket_distinct_upd:
  assumes "bucket_distinct s" "distinct (map key bkt)" "table s' = (table s)[i := bkt]"
  shows "bucket_distinct s'"
  unfolding bucket_distinct_def assms(3)
  using assms(1,2) set_update_subset_insert[of "table s" i bkt]
  by (auto simp: bucket_distinct_def)

lemma geometry_cong:
  assumes "geometry s m" "length (table s') = length (table s)"
    and "init_size s' = init_size s" "depth s' = depth s" "split_ptr s' = split_ptr s"
  shows "geometry s' m"
  using assms by (simp add: geometry_def)

lemma get_bucket_upd:
  assumes "geometry s m"
    and "init_size s' = init_size s" "depth s' = depth s" "split_ptr s' = split_ptr s"
    and "table s' = (table s)[i := bkt]" "i < length (table s)"
  shows "get hash k s' =
           Inr (if unat (hash2bucket hash s k) = i then find_value k bkt
                else find_value k (table s ! unat (hash2bucket hash s k)))"
proof -
  have g': "geometry s' m"
    using assms(1) by (rule geometry_cong) (simp_all add: assms)
  have h: "hash2bucket hash s' k = hash2bucket hash s k"
    using assms(2-4) by (rule hash2bucket_cong)
  show ?thesis
    unfolding get_no_error[OF g'] h assms(5) using assms(6)
    by (simp add: nth_list_update)
qed

subsection \<open>The split step\<close>

lemma addr_arith:
  fixes r L sp :: nat and up :: bool
  assumes "r < L" "sp < L"
  shows "(if sp + 1 = L then r + (if up then L else 0)
          else if r < sp + 1 then r + (if up then L else 0) else r)
       = (if (if r < sp then r + (if up then L else 0) else r) = sp
          then (if up then L + sp else sp)
          else (if r < sp then r + (if up then L else 0) else r))"
  using assms by auto

lemma find_value_filter_out:
  "\<not> Q k \<Longrightarrow> find_value k (filter (\<lambda>e. Q (key e)) xs) = None"
  by (induction xs) auto


lemma split_step_effect:
  assumes inv: "lh_inv hash s" and bound: "length (table s) + 1 < 2 ^ 64"
  shows "\<exists>s'. split_step hash s = Inr s' \<and> lh_inv hash s' \<and>
           (\<forall>k. get hash k s' = get hash k s) \<and>
           init_size s' = init_size s \<and> max_load_factor s' = max_load_factor s \<and>
           num_elem s' = num_elem s \<and> length (table s') = length (table s) + 1 \<and>
           (if split_ptr s + 1 \<ge> push_bit (unat (depth s)) (init_size s)
            then split_ptr s' = 0 \<and> depth s' = depth s + 1
            else split_ptr s' = split_ptr s + 1 \<and> depth s' = depth s) \<and>
           length (concat (table s')) = length (concat (table s))"
proof -
  from inv obtain m where g: "geometry s m" and pl: "placed hash s" and bd: "bucket_distinct s"
    by (auto simp: lh_inv_def)
  define d where "d = unat (depth s)"
  define n where "n = m + d"
  define L :: nat where "L = 2 ^ n"
  define sp where "sp = unat (split_ptr s)"
  define len where "len = length (table s)"
  define hm where "hm = push_bit (unat (depth s)) (init_size s)"
  define P where "P = (\<lambda>e :: ('a, 'b) entry. hash (key e) AND hm \<noteq> 0)"
  define orig where "orig = table s ! sp"
  define t3 where "t3 = (table s)[sp := filter (Not \<circ> P) orig] @ [filter P orig]"
  have i: "init_size s = 2 ^ m" and len: "len = L + sp" and spL: "sp < L"
    and l64: "len < 2 ^ 64"
    using g by (simp_all add: geometry_def L_def n_def d_def sp_def len_def)
  have n64: "n < 64" using geometry_exp[OF g] by (simp add: n_def d_def)
  have uL: "unat hm = L" using geometry_shift[OF g] by (simp add: hm_def L_def n_def d_def)
  have hm2: "hm = 2 ^ n" by (simp add: hm_def i push_bit_pow2 n_def d_def)
  have sp_len: "sp < len" using len spL by simp
  have b1: "len + 1 < 2 ^ 64" using bound by (simp add: len_def)
  have at: "vector_at (table s @ [[]]) (split_ptr s) = Inr orig"
    using sp_len b1 by (simp add: vector_at_Inr nth_append orig_def sp_def len_def)
  have t3_eq: "((table s @ [[]])[length (table s @ [[]]) - 1 := last (table s @ [[]]) @ filter P orig])
                 [unat (split_ptr s) := filter (Not \<circ> P) orig] = t3"
    using sp_len by (simp add: t3_def list_update_append1 sp_def len_def)
  have usp1: "unat (split_ptr s + 1) = sp + 1"
  proof -
    have "unat (split_ptr s) + 1 < 2 ^ 64" using sp_len b1 by (simp add: sp_def)
    thus ?thesis unfolding sp_def by (rule unat_Suc_word)
  qed
  have cond: "(split_ptr s + 1 \<ge> hm) = (sp + 1 = L)"
    unfolding word_le_nat_alt uL usp1 using spL by auto
  define s' where "s' = (if sp + 1 = L
                          then s\<lparr>table := t3, split_ptr := 0, depth := depth s + 1\<rparr>
                          else s\<lparr>table := t3, split_ptr := split_ptr s + 1\<rparr>)"
  have res: "split_step hash s = Inr s'"
    unfolding split_step_def Let_def at sum.case partition_filter_conv prod.case
      P_def[symmetric, unfolded hm_def] t3_eq cond[unfolded hm_def] s'_def
    by simp
  have tbl': "table s' = t3" and is': "init_size s' = init_size s"
    and mlf': "max_load_factor s' = max_load_factor s" and ne': "num_elem s' = num_elem s"
    by (simp_all add: s'_def)
  have lt3: "length t3 = len + 1" by (simp add: t3_def len_def)
  have ud1: "unat (depth s + 1) = d + 1"
  proof -
    have "d < 64" using n64 by (simp add: n_def)
    hence "unat (depth s) + 1 < 2 ^ 64" by (simp add: d_def)
    thus ?thesis unfolding d_def by (rule unat_Suc_word)
  qed
  have sp': "unat (split_ptr s') = (if sp + 1 = L then 0 else sp + 1)"
    and d': "unat (depth s') = (if sp + 1 = L then d + 1 else d)"
    by (simp_all add: s'_def usp1 ud1 d_def)
  have g': "geometry s' m"
    unfolding geometry_def tbl' is' lt3 sp' d'
    using i len spL b1 by (auto simp: L_def n_def)
  have old_addr: "unat (hash2bucket hash s k) =
        (if unat (hash k) mod L < sp then unat (hash k) mod 2 ^ Suc n else unat (hash k) mod L)" for k
    unfolding hash2bucket_unat[OF i] Let_def L_def n_def d_def sp_def ..
  have new_addr: "unat (hash2bucket hash s' k) =
        (if sp + 1 = L then unat (hash k) mod 2 ^ Suc n
         else if unat (hash k) mod L < sp + 1 then unat (hash k) mod 2 ^ Suc n
         else unat (hash k) mod L)" for k
    unfolding hash2bucket_unat[OF is'[unfolded i]] Let_def sp' d'
    by (simp add: L_def n_def)
  have up: "(hash k AND hm \<noteq> 0) = odd (unat (hash k) div L)" for k
    unfolding hm2 L_def by (rule and_pow2_bit)
  have addr: "unat (hash2bucket hash s' k) =
        (if unat (hash2bucket hash s k) = sp
         then (if hash k AND hm \<noteq> 0 then len else sp)
         else unat (hash2bucket hash s k))" for k
  proof -
    have r: "unat (hash k) mod L < L" by (simp add: L_def)
    have md: "unat (hash k) mod 2 ^ Suc n =
                unat (hash k) mod L + (if odd (unat (hash k) div L) then L else 0)"
      unfolding L_def by (rule mod_double)
    show ?thesis
      unfolding old_addr new_addr md up len
      by (rule addr_arith[OF r spL])
  qed
  have in_range: "unat (hash2bucket hash s k) < len" for k
    using hash2bucket_in_range[OF g] by (simp add: len_def)
  have nth_t3: "t3 ! b = (if b = len then filter P orig
                          else if b = sp then filter (Not \<circ> P) orig else table s ! b)"
    if "b < len + 1" for b
    using that sp_len by (auto simp: t3_def nth_append nth_list_update len_def)
  have orig_addr: "unat (hash2bucket hash s (key e)) = sp" if "e \<in> set orig" for e
    using pl that sp_len by (auto simp: placed_def orig_def len_def)
  have pl': "placed hash s'"
    unfolding placed_def tbl' lt3
  proof (intro allI impI ballI)
    fix b e assume b: "b < len + 1" and e: "e \<in> set (t3 ! b)"
    show "unat (hash2bucket hash s' (key e)) = b"
    proof (cases "b = len")
      case True
      with e b have "e \<in> set orig" "P e" by (simp_all add: nth_t3)
      thus ?thesis using orig_addr[of e] True by (simp add: addr P_def)
    next
      case False
      show ?thesis
      proof (cases "b = sp")
        case True
        with e b False have "e \<in> set orig" "\<not> P e" by (simp_all add: nth_t3)
        thus ?thesis using orig_addr[of e] True by (simp add: addr P_def)
      next
        case nsp: False
        with e b False have "e \<in> set (table s ! b)" "b < length (table s)"
          by (simp_all add: nth_t3 len_def)
        hence "unat (hash2bucket hash s (key e)) = b" using pl by (auto simp: placed_def)
        thus ?thesis using nsp by (simp add: addr)
      qed
    qed
  qed
  have dorig: "distinct (map key orig)"
    using bd sp_len by (auto simp: bucket_distinct_def orig_def len_def)
  have bd': "bucket_distinct s'"
    unfolding bucket_distinct_def tbl' t3_def
    using bd dorig set_update_subset_insert[of "table s" sp "filter (Not \<circ> P) orig"]
    by (auto simp: bucket_distinct_def distinct_map_filter)
  have inv': "lh_inv hash s'" using g' pl' bd' by (rule lh_invI)
  have get': "get hash k s' = get hash k s" for k
  proof -
    let ?a = "unat (hash2bucket hash s k)"
    have Pk: "P = (\<lambda>e. (\<lambda>k. hash k AND hm \<noteq> 0) (key e))" by (simp add: P_def)
    have NPk: "(Not \<circ> P) = (\<lambda>e. (\<lambda>k. \<not> hash k AND hm \<noteq> 0) (key e))"
      by (simp add: P_def fun_eq_iff)
    show ?thesis
    proof (cases "?a = sp")
      case False
      hence "unat (hash2bucket hash s' k) = ?a" by (simp add: addr)
      moreover have "?a \<noteq> len" "?a < len + 1" using in_range[of k] by simp_all
      ultimately show ?thesis
        using False by (simp add: get_no_error[OF g] get_no_error[OF g'] tbl' nth_t3)
    next
      case True
      show ?thesis
      proof (cases "hash k AND hm \<noteq> 0")
        case up: True
        hence "unat (hash2bucket hash s' k) = len" using True by (simp add: addr)
        moreover have "find_value k (filter P orig) = find_value k orig"
          unfolding Pk using up by (rule find_value_filter)
        ultimately show ?thesis
          using True by (simp add: get_no_error[OF g] get_no_error[OF g'] tbl' nth_t3 orig_def)
      next
        case down: False
        hence "unat (hash2bucket hash s' k) = sp" using True by (simp add: addr)
        moreover have "find_value k (filter (Not \<circ> P) orig) = find_value k orig"
          unfolding NPk using down by (rule find_value_filter)
        ultimately show ?thesis
          using True sp_len
          by (simp add: get_no_error[OF g] get_no_error[OF g'] tbl' nth_t3 orig_def)
      qed
    qed
  qed
  have shape: "(if split_ptr s + 1 \<ge> push_bit (unat (depth s)) (init_size s)
            then split_ptr s' = 0 \<and> depth s' = depth s + 1
            else split_ptr s' = split_ptr s + 1 \<and> depth s' = depth s)"
    unfolding cond[unfolded hm_def] by (simp add: s'_def)
  have lt': "length (table s') = length (table s) + 1" by (simp add: tbl' lt3 len_def)
  have "length (concat ((table s)[sp := filter (Not \<circ> P) orig])) + length orig =
          length (concat (table s)) + length (filter (Not \<circ> P) orig)"
    unfolding orig_def using sp_len by (intro length_concat_update) (simp add: len_def)
  moreover have "length (filter P orig) + length (filter (Not \<circ> P) orig) = length orig"
    using sum_length_filter_compl[of P orig] by (simp add: comp_def)
  ultimately have cc: "length (concat (table s')) = length (concat (table s))"
    by (simp add: tbl' t3_def)
  with res inv' get' is' mlf' ne' shape lt' show ?thesis by blast
qed

subsection \<open>Constructor\<close>

lemma LinearHash_Inr:
  assumes "LinearHash sz lf = Inr s"
  shows "s = \<lparr>table = replicate (unat sz) [], max_load_factor = lf, num_elem = 0,
               split_ptr = 0, init_size = sz, depth = 0\<rparr>"
    and "\<exists>n<64. sz = 2 ^ n"
proof -
  from assms have nz: "sz \<noteq> 0" and a: "sz AND (sz - 1) = 0"
    by (auto simp: LinearHash_def split: if_splits)
  from assms nz a show "s = \<lparr>table = replicate (unat sz) [], max_load_factor = lf, num_elem = 0,
               split_ptr = 0, init_size = sz, depth = 0\<rparr>"
    by (simp add: LinearHash_def)
  from a show "\<exists>n<64. sz = 2 ^ n" by (simp add: word_pow2_and[OF nz])
qed

lemma lh_inv_new:
  assumes "LinearHash sz lf = Inr s"
  shows "lh_inv hash s" and "get hash k s = Inr None" and "length (table s) = unat sz"
proof -
  note s = LinearHash_Inr(1)[OF assms]
  from LinearHash_Inr(2)[OF assms] obtain n where n: "n < 64" "sz = 2 ^ n" by blast
  have u: "unat sz = 2 ^ n" by (simp add: n unat_pow2)
  have "(2::nat) ^ n < 2 ^ 64" using n(1) by (intro power_strict_increasing) auto
  moreover have "init_size s = 2 ^ n" by (simp add: s n)
  moreover have "length (table s) = 2 ^ n" "depth s = 0" "split_ptr s = 0" by (simp_all add: s u)
  ultimately have g: "geometry s n" by (simp add: geometry_def)
  have pl: "placed hash s" by (simp add: s placed_def)
  have bd: "bucket_distinct s" by (simp add: s bucket_distinct_def)
  show "lh_inv hash s" using g pl bd by (rule lh_invI)
  show "length (table s) = unat sz" by (simp add: s)
  have "unat (hash2bucket hash s k) < unat sz"
    using hash2bucket_in_range[OF g, of hash k] by (simp add: s)
  thus "get hash k s = Inr None"
    unfolding get_no_error[OF g] by (simp add: s)
qed

subsection \<open>Effect of \<open>insert\<close>\<close>

lemma split_cond_eq:
  assumes "geometry s m"
  shows "split_cond s \<longleftrightarrow>
           double_gt (double_div (double_of_size_t (num_elem s)) (double_of_size_t (vsize (table s))))
             (max_load_factor s)"
proof -
  have "table s \<noteq> []" using assms by (auto simp: geometry_def)
  thus ?thesis by (simp add: split_cond_def)
qed

lemma get_present_iff:
  assumes "geometry s m"
  shows "get hash k s = Inr None \<longleftrightarrow> k \<notin> key ` set (table s ! unat (hash2bucket hash s k))"
  unfolding get_no_error[OF assms] by (simp add: find_value_None_iff)

lemma insert_lh_effect:
  assumes inv: "lh_inv hash s" and bound: "length (table s) + 1 < 2 ^ 64"
  shows "\<exists>s'. insert_lh hash k v s = Inr s' \<and> lh_inv hash s' \<and>
           get hash k s' = Inr (Some v) \<and>
           (\<forall>k'. k' \<noteq> k \<longrightarrow> get hash k' s' = get hash k' s) \<and>
           init_size s' = init_size s \<and> max_load_factor s' = max_load_factor s \<and>
           (if get hash k s \<noteq> Inr None
            then num_elem s' = num_elem s \<and> length (table s') = length (table s) \<and>
                 split_ptr s' = split_ptr s \<and> depth s' = depth s
            else num_elem s' = num_elem s + 1 \<and>
                 (if double_gt (double_div (double_of_size_t (num_elem s + 1)) (double_of_size_t (vsize (table s))))
                        (max_load_factor s)
                  then length (table s') = length (table s) + 1 \<and>
                       (if split_ptr s + 1 \<ge> push_bit (unat (depth s)) (init_size s)
                        then split_ptr s' = 0 \<and> depth s' = depth s + 1
                        else split_ptr s' = split_ptr s + 1 \<and> depth s' = depth s)
                  else length (table s') = length (table s) \<and>
                       split_ptr s' = split_ptr s \<and> depth s' = depth s)) \<and>
           length (concat (table s')) =
             length (concat (table s)) + (if get hash k s \<noteq> Inr None then 0 else 1)"
proof -
  from inv obtain m where g: "geometry s m" and pl: "placed hash s" and bd: "bucket_distinct s"
    by (auto simp: lh_inv_def)
  define i where "i = unat (hash2bucket hash s k)"
  define bkt where "bkt = table s ! i"
  have il: "i < length (table s)" using hash2bucket_in_range[OF g] by (simp add: i_def)
  have at: "vector_at (table s) (hash2bucket hash s k) = Inr bkt"
    by (simp add: vector_at_bucket[OF g] bkt_def i_def)
  have dbkt: "distinct (map key bkt)" using bd il by (auto simp: bucket_distinct_def bkt_def)
  have abkt: "unat (hash2bucket hash s (key e)) = i" if "e \<in> set bkt" for e
    using pl il that by (auto simp: placed_def bkt_def)
  have gk: "get hash k s = Inr (find_value k bkt)"
    by (simp add: get_no_error[OF g] bkt_def i_def)
  show ?thesis
  proof (cases "overwrite k v bkt")
    case (Some b')
    define s' where "s' = s\<lparr>table := (table s)[i := b']\<rparr>"
    have res: "insert_lh hash k v s = Inr s'"
      by (simp add: insert_lh_def Let_def at Some s'_def i_def)
    note ow = overwrite_Some[OF Some]
    have keys: "key ` set b' = key ` set bkt"
      using ow by (metis list.set_map)
    have f: "init_size s' = init_size s" "depth s' = depth s" "split_ptr s' = split_ptr s"
      "table s' = (table s)[i := b']" "max_load_factor s' = max_load_factor s"
      "num_elem s' = num_elem s" "length (table s') = length (table s)"
      by (simp_all add: s'_def)
    have g': "geometry s' m" using g f by (simp add: geometry_def)
    have "\<forall>e\<in>set b'. unat (hash2bucket hash s (key e)) = i"
    proof
      fix e assume "e \<in> set b'"
      hence "key e \<in> key ` set bkt" using keys by auto
      then obtain e' where "e' \<in> set bkt" "key e' = key e" by auto
      thus "unat (hash2bucket hash s (key e)) = i" using abkt[of e'] by simp
    qed
    hence pl': "placed hash s'" using pl il f(1-4) by (intro placed_bucket_upd[of hash s i b' s']) 
    have "distinct (map key b')" using ow dbkt by simp
    hence bd': "bucket_distinct s'" using bd f(4) by (intro bucket_distinct_upd[of s b' s' i])
    have inv': "lh_inv hash s'" using g' pl' bd' by (rule lh_invI)
    have get_k: "get hash k s' = Inr (Some v)"
      using ow by (simp add: get_bucket_upd[OF g f(1-4) il] i_def)
    have get_o: "get hash k' s' = get hash k' s" if "k' \<noteq> k" for k'
      using ow that
      by (simp add: get_bucket_upd[OF g f(1-4) il] get_no_error[OF g] bkt_def)
    have pres: "get hash k s \<noteq> Inr None"
      using Some overwrite_None_iff[of k v bkt] by (simp add: gk find_value_None_iff)
    have "length b' = length bkt" using ow by (metis length_map)
    hence cc: "length (concat (table s')) = length (concat (table s))"
      using length_concat_update[OF il, of b'] by (simp add: f bkt_def)
    show ?thesis using res inv' get_k get_o f pres cc by auto
  next
    case None
    hence knew: "k \<notin> key ` set bkt" by (simp add: overwrite_None_iff)
    define s1 where "s1 = s\<lparr>table := (table s)[i := bkt @ [Entry k v]], num_elem := num_elem s + 1\<rparr>"
    have f: "init_size s1 = init_size s" "depth s1 = depth s" "split_ptr s1 = split_ptr s"
      "table s1 = (table s)[i := bkt @ [Entry k v]]" "max_load_factor s1 = max_load_factor s"
      "num_elem s1 = num_elem s + 1" "length (table s1) = length (table s)"
      by (simp_all add: s1_def)
    have ins: "insert_lh hash k v s = (if split_cond s1 then split_step hash s1 else Inr s1)"
      by (simp add: insert_lh_def Let_def at None s1_def i_def)
    have g1: "geometry s1 m" using g f by (simp add: geometry_def)
    have "\<forall>e\<in>set (bkt @ [Entry k v]). unat (hash2bucket hash s (key e)) = i"
      using abkt by (auto simp: i_def)
    hence pl1: "placed hash s1" using pl il f(1-4)
      by (intro placed_bucket_upd[of hash s i "bkt @ [Entry k v]" s1])
    have "distinct (map key (bkt @ [Entry k v]))" using dbkt knew by simp
    hence bd1: "bucket_distinct s1" using bd f(4)
      by (intro bucket_distinct_upd[of s "bkt @ [Entry k v]" s1 i])
    have inv1: "lh_inv hash s1" using g1 pl1 bd1 by (rule lh_invI)
    have fk: "find_value k bkt = None" using knew by (simp add: find_value_None_iff)
    have get_k1: "get hash k s1 = Inr (Some v)"
      by (simp add: get_bucket_upd[OF g f(1-4) il] i_def find_value_snoc fk)
    have get_o1: "get hash k' s1 = get hash k' s" if "k' \<noteq> k" for k'
      using that
      by (simp add: get_bucket_upd[OF g f(1-4) il] get_no_error[OF g] bkt_def find_value_snoc
               split: option.splits)
    have absent: "get hash k s = Inr None" by (simp add: gk fk)
    have cc1: "length (concat (table s1)) = length (concat (table s)) + 1"
      using length_concat_update[OF il, of "bkt @ [Entry k v]"] by (simp add: f bkt_def)
    have sc: "split_cond s1 \<longleftrightarrow>
        double_gt (double_div (double_of_size_t (num_elem s + 1)) (double_of_size_t (vsize (table s))))  (max_load_factor s)"
      by (simp add: split_cond_eq[OF g1] f vsize_def)
    show ?thesis
    proof (cases "split_cond s1")
      case False
      with ins have res: "insert_lh hash k v s = Inr s1" by simp
      show ?thesis using res inv1 get_k1 get_o1 f absent False sc cc1 by auto
    next
      case True
      from bound f(7) have b1: "length (table s1) + 1 < 2 ^ 64" by simp
      from split_step_effect[OF inv1 b1] obtain s' where
        st: "split_step hash s1 = Inr s'" and inv': "lh_inv hash s'"
        and gs: "\<And>k. get hash k s' = get hash k s1"
        and fs: "init_size s' = init_size s1" "max_load_factor s' = max_load_factor s1"
          "num_elem s' = num_elem s1" "length (table s') = length (table s1) + 1"
        and sh: "if split_ptr s1 + 1 \<ge> push_bit (unat (depth s1)) (init_size s1)
                 then split_ptr s' = 0 \<and> depth s' = depth s1 + 1
                 else split_ptr s' = split_ptr s1 + 1 \<and> depth s' = depth s1"
        and cs: "length (concat (table s')) = length (concat (table s1))"
        by blast
      from ins True st have res: "insert_lh hash k v s = Inr s'" by simp
      have sh': "if split_ptr s + 1 \<ge> push_bit (unat (depth s)) (init_size s)
                 then split_ptr s' = 0 \<and> depth s' = depth s + 1
                 else split_ptr s' = split_ptr s + 1 \<and> depth s' = depth s"
        using sh by (simp only: f)
      have sc': "double_gt (double_div (double_of_size_t (num_elem s + 1)) (double_of_size_t (vsize (table s))))  (max_load_factor s)"
        using True sc by simp
      have "get hash k s' = Inr (Some v)" by (simp add: gs get_k1)
      moreover have "\<forall>k'. k' \<noteq> k \<longrightarrow> get hash k' s' = get hash k' s" by (simp add: gs get_o1)
      moreover have "init_size s' = init_size s" "max_load_factor s' = max_load_factor s"
        "num_elem s' = num_elem s + 1" "length (table s') = length (table s) + 1"
        by (simp_all add: fs f)
      moreover have "length (concat (table s')) =
             length (concat (table s)) + (if get hash k s \<noteq> Inr None then 0 else 1)"
        by (simp add: cs cc1 absent)
      ultimately show ?thesis using res inv' absent sc' sh'
        by (intro exI[of _ s']) (simp only: simp_thms if_True if_False)
    qed
  qed
qed

lemma replicate_2: "replicate 2 x = [x, x]"
  by (simp add: numeral_2_eq_2)

lemma insert_lh_total:
  assumes g: "geometry s m" and bound: "length (table s) + 1 < 2 ^ 64"
  shows "\<exists>s'. insert_lh hash k v s = Inr s'"
proof -
  define s1 where "s1 = s\<lparr>table := (table s)[unat (hash2bucket hash s k) :=
                      table s ! unat (hash2bucket hash s k) @ [Entry k v]],
                    num_elem := num_elem s + 1\<rparr>"
  have "unat (split_ptr s) < length (table s)" using g by (simp add: geometry_def)
  hence "vector_at (table s1 @ [[]]) (split_ptr s1) = Inr (table s1 ! unat (split_ptr s))"
    using bound by (simp add: s1_def vector_at_Inr nth_append)
  hence "\<exists>s'. split_step hash s1 = Inr s'"
    by (simp add: split_step_def Let_def split: prod.splits)
  thus ?thesis
    by (cases "overwrite k v (table s ! unat (hash2bucket hash s k))")
       (auto simp: insert_lh_def Let_def vector_at_bucket[OF g] s1_def)
qed

subsection \<open>Effect of \<open>remove\<close>\<close>

lemma find_value_at_index:
  "find_index_of k xs = Some i \<Longrightarrow> find_value k xs = Some (val (xs ! i))"
proof (induction xs arbitrary: i)
  case Nil
  then show ?case by simp
next
  case (Cons e es)
  show ?case
  proof (cases "key e = k")
    case True
    with Cons.prems show ?thesis by simp
  next
    case False
    with Cons.prems obtain j where j: "find_index_of k es = Some j" "i = Suc j" by auto
    from Cons.IH[OF j(1)] False j(2) show ?thesis by simp
  qed
qed

lemma remove_absent:
  assumes "geometry s m" "get hash k s = Inr None"
  shows "remove hash k s = Inr (False, s)"
proof -
  have "find_index_of k (table s ! unat (hash2bucket hash s k)) = None"
    using assms(2) unfolding get_no_error[OF assms(1)]
    by (simp add: find_index_of_None_iff find_value_None_iff)
  thus ?thesis by (simp add: remove_def Let_def vector_at_bucket[OF assms(1)])
qed

lemma remove_present:
  assumes inv: "lh_inv hash s" and pres: "get hash k s = Inr (Some w)"
  shows "\<exists>i s'. find_index_of k (table s ! unat (hash2bucket hash s k)) = Some i \<and>
           i < length (table s ! unat (hash2bucket hash s k)) \<and>
           table s ! unat (hash2bucket hash s k) ! i = Entry k w \<and>
           remove hash k s = Inr (True, s') \<and>
           s' = s\<lparr>table := (table s)[unat (hash2bucket hash s k) :=
                       swap_pop i (table s ! unat (hash2bucket hash s k))],
                   num_elem := num_elem s - 1\<rparr> \<and>
           lh_inv hash s' \<and> get hash k s' = Inr None \<and>
           (\<forall>k'. k' \<noteq> k \<longrightarrow> get hash k' s' = get hash k' s) \<and>
           length (concat (table s')) + 1 = length (concat (table s))"
proof -
  from inv obtain m where g: "geometry s m" and pl: "placed hash s" and bd: "bucket_distinct s"
    by (auto simp: lh_inv_def)
  define a where "a = unat (hash2bucket hash s k)"
  define bkt where "bkt = table s ! a"
  have al: "a < length (table s)" using hash2bucket_in_range[OF g] by (simp add: a_def)
  have dbkt: "distinct (map key bkt)" using bd al by (auto simp: bucket_distinct_def bkt_def)
  have abkt: "unat (hash2bucket hash s (key e)) = a" if "e \<in> set bkt" for e
    using pl al that by (auto simp: placed_def bkt_def)
  have fv: "find_value k bkt = Some w"
    using pres unfolding get_no_error[OF g] by (simp add: bkt_def a_def)
  hence "find_index_of k bkt \<noteq> None"
    by (simp add: find_index_of_None_iff find_value_None_iff[symmetric])
  then obtain i where i: "find_index_of k bkt = Some i" by auto
  from find_index_of_Some[OF i] have il: "i < length bkt" and ki: "key (bkt ! i) = k" by simp_all
  from find_value_at_index[OF i] fv have "val (bkt ! i) = w" by simp
  with ki have ei: "bkt ! i = Entry k w" by (cases "bkt ! i") simp
  define s' where "s' = s\<lparr>table := (table s)[a := swap_pop i bkt], num_elem := num_elem s - 1\<rparr>"
  have res: "remove hash k s = Inr (True, s')"
    by (simp add: remove_def Let_def vector_at_bucket[OF g] i[unfolded bkt_def a_def] s'_def bkt_def a_def)
  have f: "init_size s' = init_size s" "depth s' = depth s" "split_ptr s' = split_ptr s"
    "table s' = (table s)[a := swap_pop i bkt]"
    by (simp_all add: s'_def)
  have g': "geometry s' m" using g f by (simp add: geometry_def)
  note sp = swap_pop_bucket[OF dbkt i]
  have "\<forall>e\<in>set (swap_pop i bkt). unat (hash2bucket hash s (key e)) = a"
  proof
    fix e assume "e \<in> set (swap_pop i bkt)"
    hence "key e \<in> key ` set bkt" using sp(4) by auto
    then obtain e' where "e' \<in> set bkt" "key e' = key e" by auto
    thus "unat (hash2bucket hash s (key e)) = a" using abkt[of e'] by simp
  qed
  hence pl': "placed hash s'" using pl al f
    by (intro placed_bucket_upd[of hash s a "swap_pop i bkt" s'])
  have bd': "bucket_distinct s'" using bd sp(1) f(4)
    by (intro bucket_distinct_upd[of s "swap_pop i bkt" s' a])
  have inv': "lh_inv hash s'" using g' pl' bd' by (rule lh_invI)
  have get_k: "get hash k s' = Inr None"
    by (simp add: get_bucket_upd[OF g f al] a_def[symmetric] sp(2))
  have get_o: "get hash k' s' = get hash k' s" if "k' \<noteq> k" for k'
    using that sp(3)[of k']
    by (simp add: get_bucket_upd[OF g f al] get_no_error[OF g] bkt_def)
  have "length (swap_pop i bkt) + 1 = length bkt"
    using il by (simp add: swap_pop_def)
  hence cc: "length (concat (table s')) + 1 = length (concat (table s))"
    using length_concat_update[OF al, of "swap_pop i bkt"] by (simp add: f bkt_def)
  show ?thesis
    using i il ei res inv' get_k get_o cc
    unfolding s'_def bkt_def a_def by blast
qed

subsection \<open>Runs against a map\<close>

lemma model_last_write: "fold model_step ops Map.empty k = last_write k ops"
proof (induction ops rule: rev_induct)
  case Nil
  show ?case by (simp add: last_write_def)
next
  case (snoc x xs)
  have lw: "last_write k (xs @ [x]) =
              (if writes_key k x then (case x of Insert _ v \<Rightarrow> Some v | _ \<Rightarrow> None)
               else last_write k xs)"
    by (cases x) (simp_all add: last_write_def)
  show ?case unfolding lw using snoc by (cases x) auto
qed

lemma apply_op_effect:
  assumes inv: "lh_inv hash s" and bound: "length (table s) + 1 < 2 ^ 64"
    and m: "\<forall>k. get hash k s = Inr (m k)"
  shows "\<exists>s'. apply_op hash x s = Inr s' \<and> lh_inv hash s' \<and>
           (\<forall>k. get hash k s' = Inr (model_step x m k)) \<and>
           length (table s') \<le> length (table s) + 1 \<and>
           init_size s' = init_size s \<and> max_load_factor s' = max_load_factor s"
proof (cases x)
  case (Insert k v)
  from insert_lh_effect[OF inv bound, of k v] obtain s' where
    r: "insert_lh hash k v s = Inr s'" and i: "lh_inv hash s'"
    and gk: "get hash k s' = Inr (Some v)"
    and go: "\<And>k'. k' \<noteq> k \<Longrightarrow> get hash k' s' = get hash k' s"
    and f: "init_size s' = init_size s" "max_load_factor s' = max_load_factor s"
    and sh: "if get hash k s \<noteq> Inr None
            then num_elem s' = num_elem s \<and> length (table s') = length (table s) \<and>
                 split_ptr s' = split_ptr s \<and> depth s' = depth s
            else num_elem s' = num_elem s + 1 \<and>
                 (if double_gt (double_div (double_of_size_t (num_elem s + 1)) (double_of_size_t (vsize (table s))))
                        (max_load_factor s)
                  then length (table s') = length (table s) + 1 \<and>
                       (if split_ptr s + 1 \<ge> push_bit (unat (depth s)) (init_size s)
                        then split_ptr s' = 0 \<and> depth s' = depth s + 1
                        else split_ptr s' = split_ptr s + 1 \<and> depth s' = depth s)
                  else length (table s') = length (table s) \<and>
                       split_ptr s' = split_ptr s \<and> depth s' = depth s)"
    by blast
  have len: "length (table s') \<le> length (table s) + 1"
    using sh by (auto split: if_splits)
  have "get hash k' s' = Inr (model_step x m k')" for k'
    using gk go[of k'] m by (cases "k' = k") (simp_all add: Insert)
  thus ?thesis using r i f len by (simp add: Insert)
next
  case (Remove k)
  from inv obtain mm where g: "geometry s mm" by (auto simp: lh_inv_def)
  show ?thesis
  proof (cases "m k")
    case None
    hence "get hash k s = Inr None" using m by simp
    from remove_absent[OF g this] have "apply_op hash x s = Inr s" by (simp add: Remove)
    moreover have "get hash k' s = Inr (model_step x m k')" for k'
      using m None by (cases "k' = k") (simp_all add: Remove)
    ultimately show ?thesis using inv by simp
  next
    case (Some w)
    hence "get hash k s = Inr (Some w)" using m by simp
    from remove_present[OF inv this] obtain i s' where
      r: "remove hash k s = Inr (True, s')"
      and s': "s' = s\<lparr>table := (table s)[unat (hash2bucket hash s k) :=
                       swap_pop i (table s ! unat (hash2bucket hash s k))],
                   num_elem := num_elem s - 1\<rparr>"
      and i: "lh_inv hash s'" and gk: "get hash k s' = Inr None"
      and go: "\<And>k'. k' \<noteq> k \<Longrightarrow> get hash k' s' = get hash k' s"
      by blast
    have "get hash k' s' = Inr (model_step x m k')" for k'
      using gk go[of k'] m by (cases "k' = k") (simp_all add: Remove)
    moreover have "apply_op hash x s = Inr s'" using r by (simp add: Remove)
    moreover have "length (table s') = length (table s)" "init_size s' = init_size s"
      "max_load_factor s' = max_load_factor s" by (simp_all add: s')
    ultimately show ?thesis using i by simp
  qed
next
  case (Get k)
  from inv obtain mm where g: "geometry s mm" by (auto simp: lh_inv_def)
  have "apply_op hash x s = Inr s" by (simp add: Get get_no_error[OF g])
  thus ?thesis using inv m by (simp add: Get)
next
  case (In k)
  from inv obtain mm where g: "geometry s mm" by (auto simp: lh_inv_def)
  have "apply_op hash x s = Inr s" by (simp add: In in_no_error[OF g])
  thus ?thesis using inv m by (simp add: In)
qed

lemma run_effect:
  assumes "lh_inv hash s" "length (table s) + length ops < 2 ^ 64"
    and "\<forall>k. get hash k s = Inr (m k)"
  shows "\<exists>s'. run hash ops s = Inr s' \<and> lh_inv hash s' \<and>
           (\<forall>k. get hash k s' = Inr (fold model_step ops m k)) \<and>
           length (table s') \<le> length (table s) + length ops \<and>
           init_size s' = init_size s \<and> max_load_factor s' = max_load_factor s"
  using assms
proof (induction ops arbitrary: s m)
  case Nil
  then show ?case by simp
next
  case (Cons x xs)
  from Cons.prems(2) have b1: "length (table s) + 1 < 2 ^ 64" by simp
  from apply_op_effect[OF Cons.prems(1) b1 Cons.prems(3), of x] obtain s1 where
    a: "apply_op hash x s = Inr s1" and i1: "lh_inv hash s1"
    and m1: "\<forall>k. get hash k s1 = Inr (model_step x m k)"
    and l1: "length (table s1) \<le> length (table s) + 1"
    and f1: "init_size s1 = init_size s" "max_load_factor s1 = max_load_factor s"
    by blast
  from l1 Cons.prems(2) have b: "length (table s1) + length xs < 2 ^ 64" by simp
  from Cons.IH[OF i1 b m1] obtain s' where
    r: "run hash xs s1 = Inr s'" and i': "lh_inv hash s'"
    and m': "\<forall>k. get hash k s' = Inr (fold model_step xs (model_step x m) k)"
    and l': "length (table s') \<le> length (table s1) + length xs"
    and f': "init_size s' = init_size s1" "max_load_factor s' = max_load_factor s1"
    by blast
  have "run hash (x # xs) s = Inr s'" using a r by simp
  moreover have "length (table s') \<le> length (table s) + length (x # xs)" using l' l1 by simp
  ultimately show ?case using i' m' f' f1 by simp
qed

lemma run_from_new:
  assumes new: "LinearHash sz lf = Inr s0" and bound: "unat sz + length ops < 2 ^ 64"
  shows "\<exists>s. run hash ops s0 = Inr s \<and> lh_inv hash s \<and>
           (\<forall>k. get hash k s = Inr (last_write k ops)) \<and>
           length (table s) \<le> unat sz + length ops \<and>
           init_size s = sz \<and> max_load_factor s = lf"
proof -
  note n = lh_inv_new[OF new]
  have b: "length (table s0) + length ops < 2 ^ 64" using bound n(3) by simp
  have m: "\<forall>k. get hash k s0 = Inr (Map.empty k)" using n(2) by simp
  from run_effect[OF n(1) b m] show ?thesis
    unfolding model_last_write n(3) by (simp add: LinearHash_Inr(1)[OF new])
qed

subsection \<open>Iteration\<close>

lemma go2data_spec:
  assumes "length tbl < 2 ^ 64" "unat b \<le> length tbl"
  shows "\<exists>b'. go2data tbl b = Inr b' \<and> unat b \<le> unat b' \<and> unat b' \<le> length tbl \<and>
           (\<forall>j. unat b \<le> j \<and> j < unat b' \<longrightarrow> tbl ! j = []) \<and>
           (unat b' < length tbl \<longrightarrow> tbl ! unat b' \<noteq> [])"
  using assms
proof (induction tbl b rule: go2data.induct)
  case (1 tbl b)
  note len = "1.prems"(1)
  show ?case
  proof (cases "unat b < length tbl")
    case False
    hence "\<not> b < vsize tbl" using len by (simp add: word_less_nat_alt unat_vsize)
    hence "go2data tbl b = Inr b" by (simp add: go2data.simps[of tbl b])
    thus ?thesis using False "1.prems"(2) by auto
  next
    case True
    hence lt: "b < vsize tbl" using len by (simp add: word_less_nat_alt unat_vsize)
    have at: "vector_at tbl b = Inr (tbl ! unat b)" using len True by (rule vector_at_Inr)
    show ?thesis
    proof (cases "tbl ! unat b = []")
      case False
      hence "go2data tbl b = Inr b" using lt at by (simp add: go2data.simps[of tbl b])
      thus ?thesis using False True by auto
    next
      case empty: True
      have u: "unat (b + 1) = unat b + 1" by (rule unat_less_Suc[OF lt])
      have le: "unat (b + 1) \<le> length tbl" using True u by simp
      have "\<not> tbl ! unat b \<noteq> []" using empty by simp
      from "1.IH"[OF lt at this len le] obtain b' where
        g: "go2data tbl (b + 1) = Inr b'" and lo: "unat (b + 1) \<le> unat b'"
        and hi: "unat b' \<le> length tbl"
        and em: "\<forall>j. unat (b + 1) \<le> j \<and> j < unat b' \<longrightarrow> tbl ! j = []"
        and ne: "unat b' < length tbl \<longrightarrow> tbl ! unat b' \<noteq> []"
        by blast
      have "go2data tbl b = Inr b'" using lt at empty g by (simp add: go2data.simps[of tbl b])
      moreover have "\<forall>j. unat b \<le> j \<and> j < unat b' \<longrightarrow> tbl ! j = []"
      proof (intro allI impI)
        fix j assume j: "unat b \<le> j \<and> j < unat b'"
        show "tbl ! j = []"
        proof (cases "j = unat b")
          case True
          thus ?thesis using empty by simp
        next
          case False
          with j u have "unat (b + 1) \<le> j \<and> j < unat b'" by simp
          thus ?thesis using em by blast
        qed
      qed
      ultimately show ?thesis using lo hi ne u by auto
    qed
  qed
qed

lemma concat_drop_empty:
  assumes "\<forall>j. i \<le> j \<and> j < k \<longrightarrow> tbl ! j = []" "i \<le> k" "k \<le> length tbl"
  shows "concat (drop i tbl) = concat (drop k tbl)"
  using assms
proof (induction "k - i" arbitrary: i)
  case 0
  thus ?case by simp
next
  case (Suc d)
  hence i: "i < k" "i < length tbl" by simp_all
  have e: "tbl ! i = []" using Suc.prems(1) i by simp
  have "concat (drop i tbl) = tbl ! i @ concat (drop (Suc i) tbl)"
    using i(2) by (simp flip: Cons_nth_drop_Suc)
  also have "\<dots> = concat (drop (Suc i) tbl)" by (simp add: e)
  also have "\<dots> = concat (drop k tbl)"
  proof (rule Suc.hyps(1))
    show "d = k - Suc i" using Suc.hyps(2) by simp
    show "\<forall>j. Suc i \<le> j \<and> j < k \<longrightarrow> tbl ! j = []" using Suc.prems(1) by simp
    show "Suc i \<le> k" using i by simp
    show "k \<le> length tbl" by (rule Suc.prems(3))
  qed
  finally show ?case .
qed

lemma word_eq_unat: "(a::size_t) = b \<longleftrightarrow> unat a = unat b"
  by (rule word_unat_eq_iff)

lemma iterate_from_valid:
  assumes len: "length (table hm) < 2 ^ 64"
    and bl: "\<forall>b\<in>set (table hm). length b < 2 ^ 64"
    and fin: "fin = \<lparr>bucket_idx = vsize (table hm), entry_idx = 0\<rparr>"
    and vb: "unat (bucket_idx it) < length (table hm)"
    and ve: "unat (entry_idx it) < length (table hm ! unat (bucket_idx it))"
  shows "iterate hm it fin =
           Inr (drop (unat (entry_idx it)) (table hm ! unat (bucket_idx it)) @
                concat (drop (unat (bucket_idx it) + 1) (table hm)))"
  using assms
proof (induction hm it fin rule: iterate.induct)
  case (1 hm it fin)
  note len = "1.prems"(1) and bl = "1.prems"(2) and fin = "1.prems"(3)
    and vb = "1.prems"(4) and ve = "1.prems"(5)
  define tbl where "tbl = table hm"
  define b where "b = unat (bucket_idx it)"
  define e where "e = unat (entry_idx it)"
  define bucket where "bucket = tbl ! b"
  have n: "unat (vsize tbl) = length tbl" using len by (simp add: unat_vsize tbl_def)
  have bkl: "length bucket < 2 ^ 64" using bl vb by (simp add: bucket_def tbl_def b_def)
  have nb: "unat (vsize bucket) = length bucket" using bkl by (rule unat_vsize)
  have b_lt: "b < length tbl" using vb by (simp add: b_def tbl_def)
  have e_lt: "e < length bucket" using ve by (simp add: e_def bucket_def tbl_def b_def)
  have ne: "it \<noteq> fin"
  proof
    assume "it = fin"
    hence "unat (bucket_idx it) = unat (vsize tbl)" by (simp add: fin tbl_def)
    thus False using b_lt n by (simp add: b_def)
  qed
  have at: "vector_at (table hm) (bucket_idx it) = Inr bucket"
    using len vb by (simp add: vector_at_Inr bucket_def tbl_def b_def)
  have ate: "vector_at bucket (entry_idx it) = Inr (bucket ! e)"
    using bkl e_lt by (simp add: vector_at_Inr e_def)
  have d: "deref hm it = Inr (bucket ! e)" by (simp add: deref_def at ate)
  have elt: "entry_idx it < vsize bucket" using e_lt nb by (simp add: word_less_nat_alt e_def)
  have ue: "unat (entry_idx it + 1) = e + 1" using unat_less_Suc[OF elt] by (simp add: e_def)
  have blt: "bucket_idx it < vsize tbl" using b_lt n by (simp add: word_less_nat_alt b_def)
  have ub: "unat (bucket_idx it + 1) = b + 1" using unat_less_Suc[OF blt] by (simp add: b_def)
  show ?case
  proof (cases "e + 1 < length bucket")
    case True
    hence c: "\<not> entry_idx it + 1 \<ge> vsize bucket" by (simp add: word_le_nat_alt ue nb)
    have g: "go2data (table hm) (bucket_idx it) = Inr (bucket_idx it)"
      using blt at e_lt by (auto simp: go2data.simps[of "table hm" "bucket_idx it"] tbl_def)
    define it' where "it' = \<lparr>bucket_idx = bucket_idx it, entry_idx = entry_idx it + 1\<rparr>"
    have i: "increment hm it = Inr it'"
      using c by (simp add: increment_def Let_def at g it'_def)
    have vb': "unat (bucket_idx it') < length (table hm)" using vb by (simp add: it'_def)
    have ve': "unat (entry_idx it') < length (table hm ! unat (bucket_idx it'))"
      using True by (simp add: it'_def ue bucket_def tbl_def b_def)
    from "1.IH"[OF ne d i len bl fin vb' ve']
    have "iterate hm it' fin = Inr (drop (e + 1) bucket @ concat (drop (b + 1) tbl))"
      by (simp add: it'_def ue bucket_def tbl_def b_def)
    hence "iterate hm it fin = Inr (bucket ! e # drop (e + 1) bucket @ concat (drop (b + 1) tbl))"
      using ne d i by (simp add: iterate.simps[of hm it fin])
    moreover have "drop e bucket = bucket ! e # drop (e + 1) bucket"
      using e_lt by (simp add: Cons_nth_drop_Suc)
    ultimately show ?thesis by (simp add: e_def bucket_def tbl_def b_def)
  next
    case False
    hence last: "e + 1 = length bucket" using e_lt by simp
    hence c: "entry_idx it + 1 \<ge> vsize bucket" by (simp add: word_le_nat_alt ue nb)
    have le: "unat (bucket_idx it + 1) \<le> length (table hm)" using b_lt ub by (simp add: tbl_def)
    from go2data_spec[OF len le] obtain b' where
      g: "go2data (table hm) (bucket_idx it + 1) = Inr b'"
      and lo: "b + 1 \<le> unat b'" and hi: "unat b' \<le> length tbl"
      and em: "\<forall>j. b + 1 \<le> j \<and> j < unat b' \<longrightarrow> tbl ! j = []"
      and nonempty: "unat b' < length tbl \<longrightarrow> tbl ! unat b' \<noteq> []"
      unfolding ub tbl_def by blast
    define it' where "it' = \<lparr>bucket_idx = b', entry_idx = 0\<rparr>"
    have i: "increment hm it = Inr it'"
      using c by (simp add: increment_def Let_def at g it'_def)
    have skip: "concat (drop (b + 1) tbl) = concat (drop (unat b') tbl)"
      using em lo hi by (rule concat_drop_empty)
    have x: "drop e bucket = [bucket ! e]"
      using last e_lt by (metis Cons_nth_drop_Suc Suc_eq_plus1 drop_all order_refl)
    have rest: "iterate hm it' fin = Inr (concat (drop (unat b') tbl))"
    proof (cases "unat b' < length tbl")
      case True
      have vb': "unat (bucket_idx it') < length (table hm)" using True by (simp add: it'_def tbl_def)
      have ve': "unat (entry_idx it') < length (table hm ! unat (bucket_idx it'))"
        using nonempty True by (simp add: it'_def tbl_def)
      from "1.IH"[OF ne d i len bl fin vb' ve']
      have "iterate hm it' fin = Inr (tbl ! unat b' @ concat (drop (unat b' + 1) tbl))"
        by (simp add: it'_def tbl_def)
      thus ?thesis using True by (simp flip: Cons_nth_drop_Suc)
    next
      case False
      with hi have eq: "unat b' = length tbl" by simp
      hence "b' = vsize tbl" using n by (simp add: word_eq_unat)
      hence "it' = fin" by (simp add: it'_def fin tbl_def)
      hence "iterate hm it' fin = Inr []" by (simp add: iterate.simps[of hm fin fin])
      thus ?thesis using eq by simp
    qed
    have "iterate hm it fin = Inr (bucket ! e # concat (drop (unat b') tbl))"
      using ne d i rest by (simp add: iterate.simps[of hm it fin])
    thus ?thesis using x skip by (simp add: e_def bucket_def tbl_def b_def)
  qed
qed


lemma increment_spec:
  assumes len: "length (table hm) < 2 ^ 64"
    and bl: "\<forall>b\<in>set (table hm). length b < 2 ^ 64"
    and vb: "unat (bucket_idx it) < length (table hm)"
    and ve: "unat (entry_idx it) < length (table hm ! unat (bucket_idx it))"
  shows "\<exists>it'. increment hm it = Inr it' \<and>
           (if unat (entry_idx it) + 1 < length (table hm ! unat (bucket_idx it))
            then bucket_idx it' = bucket_idx it \<and> unat (entry_idx it') = unat (entry_idx it) + 1
            else entry_idx it' = 0 \<and> unat (bucket_idx it) < unat (bucket_idx it') \<and>
                 unat (bucket_idx it') \<le> length (table hm) \<and>
                 (\<forall>j. unat (bucket_idx it) < j \<and> j < unat (bucket_idx it')
                       \<longrightarrow> table hm ! j = []) \<and>
                 (unat (bucket_idx it') < length (table hm)
                       \<longrightarrow> table hm ! unat (bucket_idx it') \<noteq> []))"
proof -
  define tbl where "tbl = table hm"
  define b where "b = unat (bucket_idx it)"
  define e where "e = unat (entry_idx it)"
  define bucket where "bucket = tbl ! b"
  have n: "unat (vsize tbl) = length tbl" using len by (simp add: unat_vsize tbl_def)
  have bkl: "length bucket < 2 ^ 64" using bl vb by (simp add: bucket_def tbl_def b_def)
  have nb: "unat (vsize bucket) = length bucket" using bkl by (rule unat_vsize)
  have b_lt: "b < length tbl" using vb by (simp add: b_def tbl_def)
  have e_lt: "e < length bucket" using ve by (simp add: e_def bucket_def tbl_def b_def)
  have at: "vector_at (table hm) (bucket_idx it) = Inr bucket"
    using len vb by (simp add: vector_at_Inr bucket_def tbl_def b_def)
  have elt: "entry_idx it < vsize bucket" using e_lt nb by (simp add: word_less_nat_alt e_def)
  have ue: "unat (entry_idx it + 1) = e + 1" using unat_less_Suc[OF elt] by (simp add: e_def)
  have blt: "bucket_idx it < vsize tbl" using b_lt n by (simp add: word_less_nat_alt b_def)
  have ub: "unat (bucket_idx it + 1) = b + 1" using unat_less_Suc[OF blt] by (simp add: b_def)
  show ?thesis
  proof (cases "e + 1 < length bucket")
    case True
    hence c: "\<not> entry_idx it + 1 \<ge> vsize bucket" by (simp add: word_le_nat_alt ue nb)
    have g: "go2data (table hm) (bucket_idx it) = Inr (bucket_idx it)"
      using blt at e_lt by (auto simp: go2data.simps[of "table hm" "bucket_idx it"] tbl_def)
    have "increment hm it = Inr \<lparr>bucket_idx = bucket_idx it, entry_idx = entry_idx it + 1\<rparr>"
      using c by (simp add: increment_def Let_def at g)
    thus ?thesis using True ue by (simp add: e_def bucket_def tbl_def b_def)
  next
    case False
    hence c: "entry_idx it + 1 \<ge> vsize bucket" using e_lt by (simp add: word_le_nat_alt ue nb)
    have le: "unat (bucket_idx it + 1) \<le> length (table hm)" using b_lt ub by (simp add: tbl_def)
    from go2data_spec[OF len le] obtain b' where
      g: "go2data (table hm) (bucket_idx it + 1) = Inr b'"
      and lo: "b + 1 \<le> unat b'" and hi: "unat b' \<le> length tbl"
      and em: "\<forall>j. b + 1 \<le> j \<and> j < unat b' \<longrightarrow> tbl ! j = []"
      and nonempty: "unat b' < length tbl \<longrightarrow> tbl ! unat b' \<noteq> []"
      unfolding ub tbl_def by blast
    have "increment hm it = Inr \<lparr>bucket_idx = b', entry_idx = 0\<rparr>"
      using c by (simp add: increment_def Let_def at g)
    thus ?thesis using False lo hi em nonempty by (simp add: e_def bucket_def tbl_def b_def)
  qed
qed

lemma begin_spec:
  assumes len: "length (table hm) < 2 ^ 64"
  shows "\<exists>b0. begin_lh hm = Inr \<lparr>bucket_idx = b0, entry_idx = 0\<rparr> \<and>
           unat b0 \<le> length (table hm) \<and>
           (\<forall>j<unat b0. table hm ! j = []) \<and>
           (unat b0 < length (table hm) \<longrightarrow> table hm ! unat b0 \<noteq> [])"
proof (cases "table hm = []")
  case True
  hence "begin_lh hm = Inr \<lparr>bucket_idx = 0, entry_idx = 0\<rparr>"
    by (simp add: begin_lh_def Iterator_def vsize_def)
  thus ?thesis using True by simp
next
  case False
  hence pos: "unat (0::size_t) < length (table hm)" by simp
  hence lt: "(0::size_t) < vsize (table hm)" using len by (simp add: word_less_nat_alt unat_vsize)
  have at: "vector_at (table hm) 0 = Inr (table hm ! 0)"
    using vector_at_Inr[OF len pos] by simp
  show ?thesis
  proof (cases "table hm ! 0 = []")
    case ne: False
    hence "begin_lh hm = Inr \<lparr>bucket_idx = 0, entry_idx = 0\<rparr>"
      using lt at by (simp add: begin_lh_def Iterator_def)
    thus ?thesis using ne by simp
  next
    case True
    have "unat (0::size_t) \<le> length (table hm)" by simp
    from go2data_spec[OF len this] obtain b' where
      g: "go2data (table hm) 0 = Inr b'" and hi: "unat b' \<le> length (table hm)"
      and em: "\<forall>j. j < unat b' \<longrightarrow> table hm ! j = []"
      and nonempty: "unat b' < length (table hm) \<longrightarrow> table hm ! unat b' \<noteq> []"
      by auto
    have "begin_lh hm = Inr \<lparr>bucket_idx = b', entry_idx = 0\<rparr>"
      using lt at True g by (simp add: begin_lh_def Iterator_def)
    thus ?thesis using hi em nonempty by simp
  qed
qed

lemma end_spec: "end_lh hm = Inr \<lparr>bucket_idx = vsize (table hm), entry_idx = 0\<rparr>"
  by (simp add: end_lh_def Iterator_def)

lemma concat_empty_iff: "concat xs = [] \<longleftrightarrow> (\<forall>j<length xs. xs ! j = [])"
  unfolding concat_eq_Nil_conv by (metis in_set_conv_nth)

subsection \<open>The entry count\<close>

lemma counted_new:
  assumes "LinearHash sz lf = Inr s"
  shows "counted s" and "length (concat (table s)) = 0"
  by (simp_all add: LinearHash_Inr(1)[OF assms] counted_def)

lemma apply_op_counted:
  assumes inv: "lh_inv hash s" and bound: "length (table s) + 1 < 2 ^ 64"
    and c: "counted s" and cb: "length (concat (table s)) + 1 < 2 ^ 64"
    and a: "apply_op hash x s = Inr s'"
  shows "counted s' \<and> length (concat (table s')) \<le> length (concat (table s)) + 1"
proof (cases x)
  case (Insert k v)
  from insert_lh_effect[OF inv bound, of k v] obtain s'' where
    r: "insert_lh hash k v s = Inr s''"
    and sh: "if get hash k s \<noteq> Inr None
            then num_elem s'' = num_elem s \<and> length (table s'') = length (table s) \<and>
                 split_ptr s'' = split_ptr s \<and> depth s'' = depth s
            else num_elem s'' = num_elem s + 1 \<and>
                 (if double_gt (double_div (double_of_size_t (num_elem s + 1)) (double_of_size_t (vsize (table s))))
                        (max_load_factor s)
                  then length (table s'') = length (table s) + 1 \<and>
                       (if split_ptr s + 1 \<ge> push_bit (unat (depth s)) (init_size s)
                        then split_ptr s'' = 0 \<and> depth s'' = depth s + 1
                        else split_ptr s'' = split_ptr s + 1 \<and> depth s'' = depth s)
                  else length (table s'') = length (table s) \<and>
                       split_ptr s'' = split_ptr s \<and> depth s'' = depth s)"
    and cc: "length (concat (table s'')) =
               length (concat (table s)) + (if get hash k s \<noteq> Inr None then 0 else 1)"
    by blast
  from a r have eq: "s'' = s'" by (simp add: Insert)
  have u: "unat (num_elem s + 1) = unat (num_elem s) + 1"
    using c cb by (intro unat_Suc_word) (simp add: counted_def)
  show ?thesis
  proof (cases "get hash k s \<noteq> Inr None")
    case True
    with sh cc c show ?thesis by (simp add: eq[symmetric] counted_def)
  next
    case False
    with sh cc c u show ?thesis by (simp add: eq[symmetric] counted_def)
  qed
next
  case (Remove k)
  from inv obtain m where g: "geometry s m" by (auto simp: lh_inv_def)
  show ?thesis
  proof (cases "find_value k (table s ! unat (hash2bucket hash s k))")
    case None
    hence "get hash k s = Inr None" by (simp add: get_no_error[OF g])
    from remove_absent[OF g this] a have "s' = s" by (simp add: Remove)
    thus ?thesis using c by simp
  next
    case (Some w)
    hence "get hash k s = Inr (Some w)" by (simp add: get_no_error[OF g])
    from remove_present[OF inv this] obtain i s'' where
      r: "remove hash k s = Inr (True, s'')"
      and s'': "s'' = s\<lparr>table := (table s)[unat (hash2bucket hash s k) :=
                       swap_pop i (table s ! unat (hash2bucket hash s k))],
                   num_elem := num_elem s - 1\<rparr>"
      and cc: "length (concat (table s'')) + 1 = length (concat (table s))"
      by blast
    from a r have eq: "s'' = s'" by (simp add: Remove)
    have "unat (num_elem s) = length (concat (table s'')) + 1" using c cc by (simp only: counted_def)
    hence "unat (num_elem s) \<noteq> 0" by linarith
    hence "num_elem s \<noteq> 0" by (simp add: unat_eq_0)
    hence "unat (num_elem s - 1) = unat (num_elem s) - 1" by (rule unat_minus_one)
    moreover have "num_elem s'' = num_elem s - 1" by (simp add: s'')
    ultimately show ?thesis using c cc by (simp add: eq[symmetric] counted_def)
  qed
next
  case (Get k)
  from inv obtain m where g: "geometry s m" by (auto simp: lh_inv_def)
  from a have "s' = s" by (simp add: Get get_no_error[OF g])
  thus ?thesis using c by simp
next
  case (In k)
  from inv obtain m where g: "geometry s m" by (auto simp: lh_inv_def)
  from a have "s' = s" by (simp add: In in_no_error[OF g])
  thus ?thesis using c by simp
qed

lemma run_counted:
  assumes "lh_inv hash s" "counted s" "length (table s) + length ops < 2 ^ 64"
    and "length (concat (table s)) + length ops < 2 ^ 64"
  shows "\<exists>s'. run hash ops s = Inr s' \<and> lh_inv hash s' \<and> counted s'"
  using assms
proof (induction ops arbitrary: s)
  case Nil
  then show ?case by simp
next
  case (Cons x xs)
  from Cons.prems(1) obtain m where g: "geometry s m" by (auto simp: lh_inv_def)
  from Cons.prems(3) have b1: "length (table s) + 1 < 2 ^ 64" by simp
  from Cons.prems(4) have c1: "length (concat (table s)) + 1 < 2 ^ 64" by simp
  have m: "\<forall>k. get hash k s = Inr (find_value k (table s ! unat (hash2bucket hash s k)))"
    by (simp add: get_no_error[OF g])
  from apply_op_effect[OF Cons.prems(1) b1 m, of x] obtain s1 where
    a: "apply_op hash x s = Inr s1" and i1: "lh_inv hash s1"
    and l1: "length (table s1) \<le> length (table s) + 1"
    by blast
  from apply_op_counted[OF Cons.prems(1) b1 Cons.prems(2) c1 a]
  have k1: "counted s1" and n1: "length (concat (table s1)) \<le> length (concat (table s)) + 1"
    by simp_all
  from l1 Cons.prems(3) have b: "length (table s1) + length xs < 2 ^ 64" by simp
  from n1 Cons.prems(4) have c: "length (concat (table s1)) + length xs < 2 ^ 64" by simp
  from Cons.IH[OF i1 k1 b c] a show ?case by simp
qed

lemma run_from_new_counted:
  assumes new: "LinearHash sz lf = Inr s0" and bound: "unat sz + length ops < 2 ^ 64"
  shows "\<exists>s. run hash ops s0 = Inr s \<and> lh_inv hash s \<and> counted s"
proof -
  have b: "length (table s0) + length ops < 2 ^ 64"
    using bound lh_inv_new(3)[OF new] by simp
  have c: "length (concat (table s0)) + length ops < 2 ^ 64"
    using bound by (simp add: counted_new(2)[OF new])
  from run_counted[OF lh_inv_new(1)[OF new] counted_new(1)[OF new] b c] show ?thesis .
qed

subsection \<open>Worked examples\<close>

lemma placed_one_bucket: "placed hash s \<Longrightarrow> one_bucket_per_key s"
  unfolding placed_def one_bucket_per_key_def by metis

lemma new_2_half:
  "(LinearHash 2 (Finite (1 / 2)) :: error + (int, int) linear_hash) =
     Inr \<lparr>table = [[], []], max_load_factor = Finite (1 / 2), num_elem = 0, split_ptr = 0,
          init_size = 2, depth = 0\<rparr>"
  by (simp add: LinearHash_def replicate_2)

lemma run_example:
  "run word_of_int [Insert (1::int) (10::int), Insert 2 20, Insert 3 30, Insert 7 70, Insert 11 110,
                    Remove 3, Insert 1 11]
     \<lparr>table = [[], []], max_load_factor = Finite (1 / 2), num_elem = 0, split_ptr = 0,
      init_size = 2, depth = 0\<rparr> =
   Inr \<lparr>table = [[], [Entry 1 11], [Entry 2 20], [Entry 11 110, Entry 7 70], [], []],
        max_load_factor = Finite (1 / 2), num_elem = 4, split_ptr = 2, init_size = 2, depth = 1\<rparr>"
  by code_simp

lemma split_example:
  "split_step word_of_int
     \<lparr>table = [[], [Entry (1::int) (10::int)], [Entry 2 20], [Entry 3 30, Entry 7 70]],
      max_load_factor = Finite (1 / 2), num_elem = 4, split_ptr = 0, init_size = 2, depth = 1\<rparr> =
   Inr \<lparr>table = [[], [Entry 1 10], [Entry 2 20], [Entry 3 30, Entry 7 70], []],
        max_load_factor = Finite (1 / 2), num_elem = 4, split_ptr = 1, init_size = 2, depth = 1\<rparr>"
  by code_simp

lemma split_example_wrap:
  "split_step word_of_int
     \<lparr>table = [[], [Entry (1::int) (10::int), Entry 3 30], []],
      max_load_factor = Finite (1 / 2), num_elem = 2, split_ptr = 1, init_size = 2, depth = 0\<rparr> =
   Inr \<lparr>table = [[], [Entry 1 10], [], [Entry 3 30]],
        max_load_factor = Finite (1 / 2), num_elem = 2, split_ptr = 0, init_size = 2, depth = 1\<rparr>"
  by code_simp

lemma lh_inv_example_wrap:
  "lh_inv word_of_int
     \<lparr>table = [[], [Entry (1::int) (10::int), Entry 3 30], []],
      max_load_factor = Finite (1 / 2), num_elem = 2, split_ptr = 1, init_size = 2, depth = 0\<rparr>"
proof -
  let ?s = "\<lparr>table = [[], [Entry (1::int) (10::int), Entry 3 30], []],
      max_load_factor = Finite (1 / 2), num_elem = 2, split_ptr = 1, init_size = 2, depth = 0\<rparr>"
  have "geometry ?s 1" by (simp add: geometry_def)
  moreover have "placed word_of_int ?s"
    by (simp add: placed_def hash2bucket_def less_Suc_eq numeral_3_eq_3)
  moreover have "bucket_distinct ?s" by (simp add: bucket_distinct_def)
  ultimately show ?thesis by (rule lh_invI)
qed


section \<open>Claims\<close>

text \<open>
  C1. Starting from a freshly constructed table, after any sequence of operations short
  enough for the table length to stay within \<open>size_t\<close>, the run raises nothing and
  \<open>get(k)\<close> returns the value of the last \<open>insert(k, v)\<close> that no \<open>remove(k)\<close> follows,
  and the absent optional when \<open>k\<close> was never inserted or was removed last, whatever
  splits happened on the way.
\<close>

theorem get_returns_last_write:
  assumes "LinearHash sz lf = Inr s0" and "unat sz + length ops < 2 ^ 64"
  shows "\<exists>s. run hash ops s0 = Inr s \<and> get hash k s = Inr (last_write k ops)"
  using run_from_new[OF assms, of hash] by blast

theorem get_returns_last_write_witness:
  "(LinearHash 2 (Finite (1 / 2)) :: error + (int, int) linear_hash) =
     Inr \<lparr>table = [[], []], max_load_factor = Finite (1 / 2), num_elem = 0, split_ptr = 0,
          init_size = 2, depth = 0\<rparr> \<and>
   unat (2 :: size_t) + length [Insert (1::int) (10::int), Insert 2 20, Insert 3 30, Remove 2, Insert 1 11]
     < 2 ^ 64 \<and>
   (\<exists>s. run word_of_int [Insert (1::int) (10::int), Insert 2 20, Insert 3 30, Remove 2, Insert 1 11]
          \<lparr>table = [[], []], max_load_factor = Finite (1 / 2), num_elem = 0, split_ptr = 0,
           init_size = 2, depth = 0\<rparr> = Inr s \<and>
        get word_of_int 1 s = Inr (Some 11)) \<and>
   (\<exists>s. run word_of_int [Insert (1::int) (10::int), Insert 2 20, Insert 3 30, Remove 2, Insert 1 11]
          \<lparr>table = [[], []], max_load_factor = Finite (1 / 2), num_elem = 0, split_ptr = 0,
           init_size = 2, depth = 0\<rparr> = Inr s \<and>
        get word_of_int 2 s = Inr None)"
proof -
  let ?ops = "[Insert (1::int) (10::int), Insert 2 20, Insert 3 30, Remove 2, Insert 1 11]"
  have b: "unat (2 :: size_t) + length ?ops < 2 ^ 64" by simp
  have 1: "last_write 1 ?ops = Some 11" by (simp add: last_write_def)
  have 2: "last_write 2 ?ops = None" by (simp add: last_write_def)
  from get_returns_last_write[OF new_2_half b, of word_of_int 1]
    get_returns_last_write[OF new_2_half b, of word_of_int 2]
  show ?thesis unfolding 1 2 using new_2_half b by blast
qed

text \<open>
  C2. After any sequence of operations on a freshly constructed table that keeps the
  table length within \<open>size_t\<close>, every entry lies in the bucket that \<open>hash2bucket\<close>
  computes for its key under the current \<open>init_size\<close>, \<open>depth\<close> and \<open>split_ptr\<close>, no key
  lies in two buckets, and no key occurs twice in a bucket. A split step applied to a
  state with these properties yields a state with them.
\<close>

theorem placement_invariant:
  assumes "LinearHash sz lf = Inr s0" and "unat sz + length ops < 2 ^ 64"
  shows "\<exists>s. run hash ops s0 = Inr s \<and>
           placed hash s \<and> one_bucket_per_key s \<and> bucket_distinct s \<and>
           (lh_inv hash t \<and> length (table t) + 1 < 2 ^ 64 \<longrightarrow>
              (\<exists>t'. split_step hash t = Inr t' \<and>
                 placed hash t' \<and> one_bucket_per_key t' \<and> bucket_distinct t'))"
proof -
  from run_from_new[OF assms, of hash] obtain s where
    r: "run hash ops s0 = Inr s" and i: "lh_inv hash s" by blast
  have "\<exists>t'. split_step hash t = Inr t' \<and> placed hash t' \<and> one_bucket_per_key t' \<and> bucket_distinct t'"
    if "lh_inv hash t" "length (table t) + 1 < 2 ^ 64"
    using split_step_effect[OF that] by (auto simp: lh_inv_def intro: placed_one_bucket)
  with r i show ?thesis by (auto simp: lh_inv_def intro: placed_one_bucket)
qed

theorem placement_invariant_witness:
  "(LinearHash 2 (Finite (1 / 2)) :: error + (int, int) linear_hash) = Inr \<lparr>table = [[], []], max_load_factor = Finite (1 / 2), num_elem = 0, split_ptr = 0,
      init_size = 2, depth = 0\<rparr> \<and>
   unat (2 :: size_t) + length [Insert (1::int) (10::int), Insert 2 20, Insert 3 30, Insert 7 70, Insert 11 110,
                    Remove 3, Insert 1 11] < 2 ^ 64 \<and>
   run word_of_int [Insert (1::int) (10::int), Insert 2 20, Insert 3 30, Insert 7 70, Insert 11 110,
                    Remove 3, Insert 1 11] \<lparr>table = [[], []], max_load_factor = Finite (1 / 2), num_elem = 0, split_ptr = 0,
      init_size = 2, depth = 0\<rparr> = Inr \<lparr>table = [[], [Entry (1::int) (11::int)], [Entry 2 20], [Entry 11 110, Entry 7 70], [], []],
        max_load_factor = Finite (1 / 2), num_elem = 4, split_ptr = 2, init_size = 2, depth = 1\<rparr> \<and>
   placed word_of_int \<lparr>table = [[], [Entry (1::int) (11::int)], [Entry 2 20], [Entry 11 110, Entry 7 70], [], []],
        max_load_factor = Finite (1 / 2), num_elem = 4, split_ptr = 2, init_size = 2, depth = 1\<rparr> \<and> one_bucket_per_key \<lparr>table = [[], [Entry (1::int) (11::int)], [Entry 2 20], [Entry 11 110, Entry 7 70], [], []],
        max_load_factor = Finite (1 / 2), num_elem = 4, split_ptr = 2, init_size = 2, depth = 1\<rparr> \<and> bucket_distinct \<lparr>table = [[], [Entry (1::int) (11::int)], [Entry 2 20], [Entry 11 110, Entry 7 70], [], []],
        max_load_factor = Finite (1 / 2), num_elem = 4, split_ptr = 2, init_size = 2, depth = 1\<rparr> \<and>
   lh_inv word_of_int \<lparr>table = [[], [Entry (1::int) (10::int), Entry 3 30], []],
      max_load_factor = Finite (1 / 2), num_elem = 2, split_ptr = 1, init_size = 2, depth = 0\<rparr>
     \<and> length (table \<lparr>table = [[], [Entry (1::int) (10::int), Entry 3 30], []],
      max_load_factor = Finite (1 / 2), num_elem = 2, split_ptr = 1, init_size = 2, depth = 0\<rparr>
    ) + 1 < 2 ^ 64 \<and>
   split_step word_of_int \<lparr>table = [[], [Entry (1::int) (10::int), Entry 3 30], []],
      max_load_factor = Finite (1 / 2), num_elem = 2, split_ptr = 1, init_size = 2, depth = 0\<rparr>
     = Inr \<lparr>table = [[], [Entry (1::int) (10::int)], [], [Entry 3 30]],
        max_load_factor = Finite (1 / 2), num_elem = 2, split_ptr = 0, init_size = 2, depth = 1\<rparr> \<and>
   placed word_of_int \<lparr>table = [[], [Entry (1::int) (10::int)], [], [Entry 3 30]],
        max_load_factor = Finite (1 / 2), num_elem = 2, split_ptr = 0, init_size = 2, depth = 1\<rparr> \<and> one_bucket_per_key \<lparr>table = [[], [Entry (1::int) (10::int)], [], [Entry 3 30]],
        max_load_factor = Finite (1 / 2), num_elem = 2, split_ptr = 0, init_size = 2, depth = 1\<rparr> \<and> bucket_distinct \<lparr>table = [[], [Entry (1::int) (10::int)], [], [Entry 3 30]],
        max_load_factor = Finite (1 / 2), num_elem = 2, split_ptr = 0, init_size = 2, depth = 1\<rparr>"
proof -
  have b: "unat (2 :: size_t) + length [Insert (1::int) (10::int), Insert 2 20, Insert 3 30, Insert 7 70, Insert 11 110,
                    Remove 3, Insert 1 11] < 2 ^ 64" by simp
  have l: "length (table \<lparr>table = [[], [Entry (1::int) (10::int), Entry 3 30], []],
      max_load_factor = Finite (1 / 2), num_elem = 2, split_ptr = 1, init_size = 2, depth = 0\<rparr>
    ) + 1 < 2 ^ 64" by simp
  from placement_invariant[OF new_2_half b, of word_of_int "\<lparr>table = [[], [Entry (1::int) (10::int), Entry 3 30], []],
      max_load_factor = Finite (1 / 2), num_elem = 2, split_ptr = 1, init_size = 2, depth = 0\<rparr>"]
  show ?thesis
    unfolding run_example split_example_wrap
    using new_2_half b l lh_inv_example_wrap by auto
qed

text \<open>
  C3. The bucket index computed by \<open>hash2bucket\<close> is the function of section 4.1 of the
  four values \<open>h(k)\<close>, \<open>init_size\<close>, \<open>depth\<close> and \<open>split_ptr\<close>, and of nothing else in
  the state: with \<open>L = init_size << depth\<close> and \<open>i0 = h(k) & (L - 1)\<close> it is
  \<open>h(k) & (((L - 1) << 1) | 1)\<close> when \<open>i0 < split_ptr\<close> and \<open>i0\<close> otherwise.
\<close>

theorem addressing_matches_spec:
  "hash2bucket hash s k = addr_spec (hash k) (init_size s) (depth s) (split_ptr s)"
  unfolding hash2bucket_def addr_spec_def Let_def plus1_or ..




text \<open>
  C5. After any sequence of operations on a freshly constructed table that keeps the
  table length within \<open>size_t\<close>,
  \<open>table.length = (init_size << depth) + split_ptr\<close> and \<open>split_ptr < init_size << depth\<close>,
  with no wrap-around in the shift or the sum. A split step keeps both, whether it only
  advances \<open>split_ptr\<close> or resets it to 0 and increments \<open>depth\<close>.
\<close>

theorem length_invariant:
  assumes "LinearHash sz lf = Inr s0" and "unat sz + length ops < 2 ^ 64"
  shows "\<exists>s. run hash ops s0 = Inr s \<and> inv_length s \<and> inv_split_ptr s \<and>
           length (table s) = unat (init_size s) * 2 ^ unat (depth s) + unat (split_ptr s) \<and>
           unat (split_ptr s) < unat (init_size s) * 2 ^ unat (depth s) \<and>
           (lh_inv hash t \<and> length (table t) + 1 < 2 ^ 64 \<longrightarrow>
              (\<exists>t'. split_step hash t = Inr t' \<and> inv_length t' \<and> inv_split_ptr t' \<and>
                 length (table t') = length (table t) + 1 \<and>
                 (if split_ptr t + 1 \<ge> push_bit (unat (depth t)) (init_size t)
                  then split_ptr t' = 0 \<and> depth t' = depth t + 1
                  else split_ptr t' = split_ptr t + 1 \<and> depth t' = depth t)))"
proof -
  from run_from_new[OF assms, of hash] obtain s where
    r: "run hash ops s0 = Inr s" and i: "lh_inv hash s" by blast
  from i obtain m where g: "geometry s m" by (auto simp: lh_inv_def)
  have m64: "m < 64" using geometry_exp[OF g] by simp
  have n: "length (table s) = unat (init_size s) * 2 ^ unat (depth s) + unat (split_ptr s)"
    "unat (split_ptr s) < unat (init_size s) * 2 ^ unat (depth s)"
    using g by (simp_all add: geometry_def unat_pow2[OF m64] power_add)
  have sp: "\<exists>t'. split_step hash t = Inr t' \<and> inv_length t' \<and> inv_split_ptr t' \<and>
                 length (table t') = length (table t) + 1 \<and>
                 (if split_ptr t + 1 \<ge> push_bit (unat (depth t)) (init_size t)
                  then split_ptr t' = 0 \<and> depth t' = depth t + 1
                  else split_ptr t' = split_ptr t + 1 \<and> depth t' = depth t)"
    if t: "lh_inv hash t" "length (table t) + 1 < 2 ^ 64"
  proof -
    from split_step_effect[OF t] obtain t' where
      a: "split_step hash t = Inr t'" and b: "lh_inv hash t'"
      and c: "length (table t') = length (table t) + 1"
      and d: "if split_ptr t + 1 \<ge> push_bit (unat (depth t)) (init_size t)
                  then split_ptr t' = 0 \<and> depth t' = depth t + 1
                  else split_ptr t' = split_ptr t + 1 \<and> depth t' = depth t"
      by blast
    from b obtain m' where "geometry t' m'" by (auto simp: lh_inv_def)
    from geometry_inv[OF this] a c d show ?thesis by blast
  qed
  from geometry_inv[OF g] r n sp show ?thesis by blast
qed

theorem length_invariant_witness:
  "(LinearHash 2 (Finite (1 / 2)) :: error + (int, int) linear_hash) = Inr \<lparr>table = [[], []], max_load_factor = Finite (1 / 2), num_elem = 0, split_ptr = 0,
      init_size = 2, depth = 0\<rparr> \<and>
   unat (2 :: size_t) + length [Insert (1::int) (10::int), Insert 2 20, Insert 3 30, Insert 7 70, Insert 11 110,
                    Remove 3, Insert 1 11] < 2 ^ 64 \<and>
   run word_of_int [Insert (1::int) (10::int), Insert 2 20, Insert 3 30, Insert 7 70, Insert 11 110,
                    Remove 3, Insert 1 11] \<lparr>table = [[], []], max_load_factor = Finite (1 / 2), num_elem = 0, split_ptr = 0,
      init_size = 2, depth = 0\<rparr> = Inr \<lparr>table = [[], [Entry (1::int) (11::int)], [Entry 2 20], [Entry 11 110, Entry 7 70], [], []],
        max_load_factor = Finite (1 / 2), num_elem = 4, split_ptr = 2, init_size = 2, depth = 1\<rparr> \<and>
   inv_length \<lparr>table = [[], [Entry (1::int) (11::int)], [Entry 2 20], [Entry 11 110, Entry 7 70], [], []],
        max_load_factor = Finite (1 / 2), num_elem = 4, split_ptr = 2, init_size = 2, depth = 1\<rparr> \<and> inv_split_ptr \<lparr>table = [[], [Entry (1::int) (11::int)], [Entry 2 20], [Entry 11 110, Entry 7 70], [], []],
        max_load_factor = Finite (1 / 2), num_elem = 4, split_ptr = 2, init_size = 2, depth = 1\<rparr> \<and>
   lh_inv word_of_int \<lparr>table = [[], [Entry (1::int) (10::int), Entry 3 30], []],
      max_load_factor = Finite (1 / 2), num_elem = 2, split_ptr = 1, init_size = 2, depth = 0\<rparr>
     \<and> length (table \<lparr>table = [[], [Entry (1::int) (10::int), Entry 3 30], []],
      max_load_factor = Finite (1 / 2), num_elem = 2, split_ptr = 1, init_size = 2, depth = 0\<rparr>
    ) + 1 < 2 ^ 64 \<and>
   split_step word_of_int \<lparr>table = [[], [Entry (1::int) (10::int), Entry 3 30], []],
      max_load_factor = Finite (1 / 2), num_elem = 2, split_ptr = 1, init_size = 2, depth = 0\<rparr>
     = Inr \<lparr>table = [[], [Entry (1::int) (10::int)], [], [Entry 3 30]],
        max_load_factor = Finite (1 / 2), num_elem = 2, split_ptr = 0, init_size = 2, depth = 1\<rparr> \<and>
   inv_length \<lparr>table = [[], [Entry (1::int) (10::int)], [], [Entry 3 30]],
        max_load_factor = Finite (1 / 2), num_elem = 2, split_ptr = 0, init_size = 2, depth = 1\<rparr> \<and> inv_split_ptr \<lparr>table = [[], [Entry (1::int) (10::int)], [], [Entry 3 30]],
        max_load_factor = Finite (1 / 2), num_elem = 2, split_ptr = 0, init_size = 2, depth = 1\<rparr>"
proof -
  have b: "unat (2 :: size_t) + length [Insert (1::int) (10::int), Insert 2 20, Insert 3 30, Insert 7 70, Insert 11 110,
                    Remove 3, Insert 1 11] < 2 ^ 64" by simp
  have l: "length (table \<lparr>table = [[], [Entry (1::int) (10::int), Entry 3 30], []],
      max_load_factor = Finite (1 / 2), num_elem = 2, split_ptr = 1, init_size = 2, depth = 0\<rparr>
    ) + 1 < 2 ^ 64" by simp
  from length_invariant[OF new_2_half b, of word_of_int "\<lparr>table = [[], [Entry (1::int) (10::int), Entry 3 30], []],
      max_load_factor = Finite (1 / 2), num_elem = 2, split_ptr = 1, init_size = 2, depth = 0\<rparr>"]
  show ?thesis
    unfolding run_example split_example_wrap
    using new_2_half b l lh_inv_example_wrap by auto
qed

text \<open>
  C6, as the constructor has it. The constructor reports an invalid argument exactly when
  \<open>init_size\<close> is zero or not a power of two; the load factor is not examined. For a
  power of two the table has \<open>init_size\<close> empty buckets, \<open>size() = 0\<close>,
  \<open>capacity() = init_size\<close> and \<open>split_ptr() = 0\<close>.
\<close>

theorem constructor_validation:
  "((LinearHash sz lf :: error + ('k, 'v) linear_hash) = Inl InvalidArgument
      \<longleftrightarrow> sz = 0 \<or> \<not> (\<exists>n<64. sz = 2 ^ n)) \<and>
   (sz \<noteq> 0 \<and> (\<exists>n<64. sz = 2 ^ n) \<longrightarrow>
      (\<exists>s :: ('k, 'v) linear_hash. LinearHash sz lf = Inr s \<and>
         table s = replicate (unat sz) [] \<and> length (table s) = unat sz \<and>
         get_num_elem s = 0 \<and> get_table_size s = sz \<and> get_split_ptr s = 0 \<and>
         depth s = 0 \<and> init_size s = sz \<and> max_load_factor s = lf))"
proof (cases "sz = 0")
  case True
  have "\<not> (\<exists>n<64. (0::size_t) = 2 ^ n)" 
  proof
    assume "\<exists>n<64. (0::size_t) = 2 ^ n"
    then obtain n where "n < 64" "(2::size_t) ^ n = 0" by auto
    thus False by (simp add: exp_eq_zero_iff)
  qed
  with True show ?thesis by (simp add: LinearHash_def)
next
  case False
  show ?thesis
    using False word_pow2_and[OF False]
    by (auto simp: LinearHash_def get_num_elem_def get_table_size_def get_split_ptr_def vsize_def)
qed

theorem constructor_validation_witness:
  "(LinearHash 2 (Finite (3 / 4)) :: error + (int, int) linear_hash) =
     Inr \<lparr>table = [[], []], max_load_factor = Finite (3 / 4), num_elem = 0, split_ptr = 0,
          init_size = 2, depth = 0\<rparr> \<and>
   (LinearHash 3 (Finite (3 / 4)) :: error + (int, int) linear_hash) = Inl InvalidArgument \<and>
   (\<exists>s :: (int, int) linear_hash. LinearHash 2 (Finite (3 / 4)) = Inr s \<and>
      get_num_elem s = 0 \<and> get_table_size s = 2 \<and> get_split_ptr s = 0)"
proof -
  have p: "(2::size_t) \<noteq> 0 \<and> (\<exists>n<64. (2::size_t) = 2 ^ n)"
    by (auto intro: exI[of _ 1])
  from constructor_validation[of 2 "Finite (3 / 4)", where 'k = int and 'v = int] p
  have "\<exists>s :: (int, int) linear_hash. LinearHash 2 (Finite (3 / 4)) = Inr s \<and>
      get_num_elem s = 0 \<and> get_table_size s = 2 \<and> get_split_ptr s = 0"
    by blast
  moreover have "(LinearHash 2 (Finite (3 / 4)) :: error + (int, int) linear_hash) =
     Inr \<lparr>table = [[], []], max_load_factor = Finite (3 / 4), num_elem = 0, split_ptr = 0,
          init_size = 2, depth = 0\<rparr>"
    by (simp add: LinearHash_def replicate_2)
  moreover have "(LinearHash 3 (Finite (3 / 4)) :: error + (int, int) linear_hash) = Inl InvalidArgument"
    by (simp add: LinearHash_def)
  ultimately show ?thesis by blast
qed

text \<open>
  C6 as stated fails: a load factor of zero is accepted.
\<close>

theorem constructor_load_factor_counterexample:
  "(0::rat) \<le> 0 \<and>
   (LinearHash 2 (Finite 0) :: error + (int, int) linear_hash) =
     Inr \<lparr>table = [[], []], max_load_factor = Finite 0, num_elem = 0, split_ptr = 0,
          init_size = 2, depth = 0\<rparr>"
  by (simp add: LinearHash_def replicate_2)

text \<open>
  C7. In a state satisfying the invariants, inserting a key that is present overwrites
  its value, leaves every other key's value, \<open>num_elem\<close>, the capacity, \<open>split_ptr\<close> and
  \<open>depth\<close> as they were and keeps every bucket's keys in place, so no split happens.
  Inserting the same key and value twice gives the state that inserting them once gives.
  Every state that operations reach from a constructed table satisfies the invariants.
\<close>

theorem insert_existing_key:
  assumes "lh_inv hash s"
  shows "(get hash k s \<noteq> Inr None \<longrightarrow>
            (\<exists>s'. insert_lh hash k v s = Inr s' \<and> get hash k s' = Inr (Some v) \<and>
               (\<forall>k'. k' \<noteq> k \<longrightarrow> get hash k' s' = get hash k' s) \<and>
               get_num_elem s' = get_num_elem s \<and> get_table_size s' = get_table_size s \<and>
               get_split_ptr s' = get_split_ptr s \<and> depth s' = depth s \<and>
               map (map key) (table s') = map (map key) (table s))) \<and>
         (length (table s) + 1 < 2 ^ 64 \<longrightarrow>
            (\<exists>s1. insert_lh hash k v s = Inr s1 \<and> insert_lh hash k v s1 = Inr s1)) \<and>
         (LinearHash sz lf = Inr s0 \<and> unat sz + length ops < 2 ^ 64 \<longrightarrow>
            (\<exists>t. run hash ops s0 = Inr t \<and> lh_inv hash t))"
proof (intro conjI impI)
  assume pres: "get hash k s \<noteq> Inr None"
  from assms obtain m where g: "geometry s m" by (auto simp: lh_inv_def)
  define a where "a = unat (hash2bucket hash s k)"
  have al: "a < length (table s)" using hash2bucket_in_range[OF g] by (simp add: a_def)
  from pres have "overwrite k v (table s ! a) \<noteq> None"
    unfolding get_no_error[OF g] by (simp add: find_value_None_iff overwrite_None_iff a_def)
  then obtain b' where ow: "overwrite k v (table s ! a) = Some b'" by auto
  define s' where "s' = s\<lparr>table := (table s)[a := b']\<rparr>"
  have res: "insert_lh hash k v s = Inr s'"
    by (simp add: insert_lh_def Let_def vector_at_bucket[OF g] ow[unfolded a_def] s'_def a_def)
  have f: "init_size s' = init_size s" "depth s' = depth s" "split_ptr s' = split_ptr s"
    "table s' = (table s)[a := b']" by (simp_all add: s'_def)
  note o = overwrite_Some[OF ow]
  have gk: "get hash k s' = Inr (Some v)"
    using o by (simp add: get_bucket_upd[OF g f al] a_def)
  have go: "\<forall>k'. k' \<noteq> k \<longrightarrow> get hash k' s' = get hash k' s"
    using o by (simp add: get_bucket_upd[OF g f al] get_no_error[OF g])
  have keys: "map (map key) (table s') = map (map key) (table s)"
    using o al by (simp add: f map_update list_update_same_conv)
  have "get_num_elem s' = get_num_elem s" "get_table_size s' = get_table_size s"
    "get_split_ptr s' = get_split_ptr s" "depth s' = depth s"
    by (simp_all add: s'_def get_num_elem_def get_table_size_def get_split_ptr_def vsize_def)
  with res gk go keys
  show "\<exists>s'. insert_lh hash k v s = Inr s' \<and> get hash k s' = Inr (Some v) \<and>
               (\<forall>k'. k' \<noteq> k \<longrightarrow> get hash k' s' = get hash k' s) \<and>
               get_num_elem s' = get_num_elem s \<and> get_table_size s' = get_table_size s \<and>
               get_split_ptr s' = get_split_ptr s \<and> depth s' = depth s \<and>
               map (map key) (table s') = map (map key) (table s)"
    by blast
next
  assume bound: "length (table s) + 1 < 2 ^ 64"
  from insert_lh_effect[OF assms bound, of k v] obtain s1 where
    r: "insert_lh hash k v s = Inr s1" and i1: "lh_inv hash s1"
    and gk: "get hash k s1 = Inr (Some v)" by blast
  from i1 obtain m where g1: "geometry s1 m" by (auto simp: lh_inv_def)
  define a where "a = unat (hash2bucket hash s1 k)"
  have al: "a < length (table s1)" using hash2bucket_in_range[OF g1] by (simp add: a_def)
  have "find_value k (table s1 ! a) = Some v"
    using gk unfolding get_no_error[OF g1] by (simp add: a_def)
  hence ow: "overwrite k v (table s1 ! a) = Some (table s1 ! a)" by (rule overwrite_same)
  have "insert_lh hash k v s1 = Inr (s1\<lparr>table := (table s1)[a := table s1 ! a]\<rparr>)"
    by (simp add: insert_lh_def Let_def vector_at_bucket[OF g1] ow[unfolded a_def] a_def)
  hence "insert_lh hash k v s1 = Inr s1" by simp
  with r show "\<exists>s1. insert_lh hash k v s = Inr s1 \<and> insert_lh hash k v s1 = Inr s1" by blast
next
  assume "LinearHash sz lf = Inr s0 \<and> unat sz + length ops < 2 ^ 64"
  hence "LinearHash sz lf = Inr s0" and "unat sz + length ops < 2 ^ 64" by simp_all
  from run_from_new[OF this, of hash]
  show "\<exists>t. run hash ops s0 = Inr t \<and> lh_inv hash t" by blast
qed

theorem insert_existing_key_witness:
  "lh_inv word_of_int \<lparr>table = [[], [Entry (1::int) (10::int), Entry 3 30], []],
      max_load_factor = Finite (1 / 2), num_elem = 2, split_ptr = 1, init_size = 2, depth = 0\<rparr> \<and>
   get word_of_int 1 \<lparr>table = [[], [Entry (1::int) (10::int), Entry 3 30], []],
      max_load_factor = Finite (1 / 2), num_elem = 2, split_ptr = 1, init_size = 2, depth = 0\<rparr> \<noteq> Inr None \<and>
   length (table \<lparr>table = [[], [Entry (1::int) (10::int), Entry 3 30], []],
      max_load_factor = Finite (1 / 2), num_elem = 2, split_ptr = 1, init_size = 2, depth = 0\<rparr>) + 1 < 2 ^ 64 \<and>
   (\<exists>s'. insert_lh word_of_int 1 99 \<lparr>table = [[], [Entry (1::int) (10::int), Entry 3 30], []],
      max_load_factor = Finite (1 / 2), num_elem = 2, split_ptr = 1, init_size = 2, depth = 0\<rparr> = Inr s' \<and>
      get word_of_int 1 s' = Inr (Some 99) \<and>
      get_num_elem s' = get_num_elem \<lparr>table = [[], [Entry (1::int) (10::int), Entry 3 30], []],
      max_load_factor = Finite (1 / 2), num_elem = 2, split_ptr = 1, init_size = 2, depth = 0\<rparr> \<and>
      get_table_size s' = get_table_size \<lparr>table = [[], [Entry (1::int) (10::int), Entry 3 30], []],
      max_load_factor = Finite (1 / 2), num_elem = 2, split_ptr = 1, init_size = 2, depth = 0\<rparr> \<and>
      get_split_ptr s' = get_split_ptr \<lparr>table = [[], [Entry (1::int) (10::int), Entry 3 30], []],
      max_load_factor = Finite (1 / 2), num_elem = 2, split_ptr = 1, init_size = 2, depth = 0\<rparr> \<and>
      depth s' = depth \<lparr>table = [[], [Entry (1::int) (10::int), Entry 3 30], []],
      max_load_factor = Finite (1 / 2), num_elem = 2, split_ptr = 1, init_size = 2, depth = 0\<rparr>) \<and>
   (\<exists>s1. insert_lh word_of_int 5 50 \<lparr>table = [[], [Entry (1::int) (10::int), Entry 3 30], []],
      max_load_factor = Finite (1 / 2), num_elem = 2, split_ptr = 1, init_size = 2, depth = 0\<rparr> = Inr s1 \<and> insert_lh word_of_int 5 50 s1 = Inr s1) \<and>
   (LinearHash 2 (Finite (1 / 2)) :: error + (int, int) linear_hash) = Inr \<lparr>table = [[], []], max_load_factor = Finite (1 / 2), num_elem = 0, split_ptr = 0,
      init_size = 2, depth = 0\<rparr> \<and>
   unat (2 :: size_t) + length [Insert (1::int) (10::int), Insert 2 20, Insert 3 30, Insert 7 70, Insert 11 110,
      Remove 3, Insert 1 11] < 2 ^ 64 \<and>
   run word_of_int [Insert (1::int) (10::int), Insert 2 20, Insert 3 30, Insert 7 70, Insert 11 110,
      Remove 3, Insert 1 11] \<lparr>table = [[], []], max_load_factor = Finite (1 / 2), num_elem = 0, split_ptr = 0,
      init_size = 2, depth = 0\<rparr> = Inr \<lparr>table = [[], [Entry (1::int) (11::int)], [Entry 2 20], [Entry 11 110, Entry 7 70], [], []],
      max_load_factor = Finite (1 / 2), num_elem = 4, split_ptr = 2, init_size = 2, depth = 1\<rparr> \<and>
   lh_inv word_of_int \<lparr>table = [[], [Entry (1::int) (11::int)], [Entry 2 20], [Entry 11 110, Entry 7 70], [], []],
      max_load_factor = Finite (1 / 2), num_elem = 4, split_ptr = 2, init_size = 2, depth = 1\<rparr>"
proof -
  let ?W = "\<lparr>table = [[], [Entry (1::int) (10::int), Entry 3 30], []],
      max_load_factor = Finite (1 / 2), num_elem = 2, split_ptr = 1, init_size = 2, depth = 0\<rparr>"
  let ?ops = "[Insert (1::int) (10::int), Insert 2 20, Insert 3 30, Insert 7 70, Insert 11 110,
      Remove 3, Insert 1 11]"
  let ?s0 = "\<lparr>table = [[], []], max_load_factor = Finite (1 / 2), num_elem = 0, split_ptr = 0,
      init_size = 2, depth = 0\<rparr>"
  have p: "get word_of_int 1 ?W \<noteq> Inr None" by code_simp
  have l: "length (table ?W) + 1 < 2 ^ 64" by simp
  have b: "unat (2 :: size_t) + length ?ops < 2 ^ 64" by simp
  have pre: "(LinearHash 2 (Finite (1 / 2)) :: error + (int, int) linear_hash) = Inr ?s0 \<and>
             unat (2 :: size_t) + length ?ops < 2 ^ 64"
    using new_2_half b by (rule conjI)
  note t = insert_existing_key[OF lh_inv_example_wrap, where k = 1 and v = 99 and sz = 2
      and lf = "Finite (1 / 2)" and ?s0.0 = ?s0 and ops = ?ops]
  note u = insert_existing_key[OF lh_inv_example_wrap, where k = 5 and v = 50 and sz = 2
      and lf = "Finite (1 / 2)" and ?s0.0 = ?s0 and ops = ?ops]
  from t[THEN conjunct1, THEN mp, OF p]
  obtain s' where "insert_lh word_of_int 1 99 ?W = Inr s'"
    "get word_of_int 1 s' = Inr (Some 99)" "get_num_elem s' = get_num_elem ?W"
    "get_table_size s' = get_table_size ?W" "get_split_ptr s' = get_split_ptr ?W"
    "depth s' = depth ?W"
    by (elim exE conjE)
  hence 1: "\<exists>s'. insert_lh word_of_int 1 99 ?W = Inr s' \<and>
      get word_of_int 1 s' = Inr (Some 99) \<and>
      get_num_elem s' = get_num_elem ?W \<and>
      get_table_size s' = get_table_size ?W \<and>
      get_split_ptr s' = get_split_ptr ?W \<and>
      depth s' = depth ?W"
    by (intro exI[of _ s'] conjI)
  have 2: "\<exists>s1. insert_lh word_of_int 5 50 ?W = Inr s1 \<and> insert_lh word_of_int 5 50 s1 = Inr s1"
    using u[THEN conjunct2, THEN conjunct1] l by (rule mp)
  from t[THEN conjunct2, THEN conjunct2, THEN mp, OF pre]
  have 3: "lh_inv word_of_int \<lparr>table = [[], [Entry (1::int) (11::int)], [Entry 2 20], [Entry 11 110, Entry 7 70], [], []],
      max_load_factor = Finite (1 / 2), num_elem = 4, split_ptr = 2, init_size = 2, depth = 1\<rparr>"
    unfolding run_example by (elim exE conjE) simp
  from lh_inv_example_wrap p l 1 2 new_2_half b run_example 3
  show ?thesis by (intro conjI) simp_all
qed

text \<open>
  C8. In a state satisfying the invariants \<open>remove(k)\<close> raises nothing. When \<open>k\<close> is
  absent it returns false and the state it leaves is the state it found. When \<open>k\<close> is
  present with value \<open>w\<close> it returns true, \<open>num_elem\<close> is one less (without wrapping
  below zero when \<open>num_elem\<close> counted the entries), the bucket of \<open>k\<close> is its former
  content with the entry of \<open>k\<close> overwritten by the last entry and the last position
  dropped, which takes exactly the entry \<open>(k, w)\<close> out of it, every other bucket and
  every other field is as before, and afterwards \<open>k\<close> is absent and every other key has
  the value it had. Every state that operations reach from a constructed table
  satisfies the invariants, with \<open>num_elem\<close> counting the entries.
\<close>

theorem remove_contract:
  assumes "lh_inv hash s"
  shows "(\<exists>r s'. remove hash k s = Inr (r, s')) \<and>
         (get hash k s = Inr None \<longrightarrow> remove hash k s = Inr (False, s)) \<and>
         (get hash k s = Inr (Some w) \<longrightarrow>
            (\<exists>s' i. remove hash k s = Inr (True, s') \<and>
               num_elem s' = num_elem s - 1 \<and>
               find_index_of k (table s ! unat (hash2bucket hash s k)) = Some i \<and>
               table s' = (table s)[unat (hash2bucket hash s k) :=
                             swap_pop i (table s ! unat (hash2bucket hash s k))] \<and>
               mset (table s' ! unat (hash2bucket hash s k)) =
                 mset (table s ! unat (hash2bucket hash s k)) - {#Entry k w#} \<and>
               (\<forall>b<length (table s). b \<noteq> unat (hash2bucket hash s k) \<longrightarrow>
                    table s' ! b = table s ! b) \<and>
               length (table s') = length (table s) \<and>
               split_ptr s' = split_ptr s \<and> depth s' = depth s \<and>
               init_size s' = init_size s \<and> max_load_factor s' = max_load_factor s \<and>
               (counted s \<longrightarrow> unat (num_elem s) = unat (num_elem s') + 1) \<and>
               get hash k s' = Inr None \<and>
               (\<forall>k'. k' \<noteq> k \<longrightarrow> get hash k' s' = get hash k' s))) \<and>
         (LinearHash sz lf = Inr s0 \<and> unat sz + length ops < 2 ^ 64 \<longrightarrow>
            (\<exists>t. run hash ops s0 = Inr t \<and> lh_inv hash t \<and> counted t))"
proof (intro conjI impI)
  from assms obtain m where g: "geometry s m" by (auto simp: lh_inv_def)
  from remove_no_error[OF g, of hash k] show "\<exists>r s'. remove hash k s = Inr (r, s')" by auto
  show "remove hash k s = Inr (False, s)" if "get hash k s = Inr None"
    using g that by (rule remove_absent)
  assume pres: "get hash k s = Inr (Some w)"
  define a where "a = unat (hash2bucket hash s k)"
  have al: "a < length (table s)" using hash2bucket_in_range[OF g] by (simp add: a_def)
  from remove_present[OF assms pres] obtain i s' where
    i: "find_index_of k (table s ! a) = Some i" and il: "i < length (table s ! a)"
    and ei: "table s ! a ! i = Entry k w"
    and r: "remove hash k s = Inr (True, s')"
    and s': "s' = s\<lparr>table := (table s)[a := swap_pop i (table s ! a)], num_elem := num_elem s - 1\<rparr>"
    and gk: "get hash k s' = Inr None"
    and go: "\<forall>k'. k' \<noteq> k \<longrightarrow> get hash k' s' = get hash k' s"
    and cc: "length (concat (table s')) + 1 = length (concat (table s))"
    unfolding a_def by blast
  have t: "table s' = (table s)[a := swap_pop i (table s ! a)]" by (simp add: s')
  have ms: "mset (table s' ! a) = mset (table s ! a) - {#Entry k w#}"
    using al by (simp add: t mset_swap_pop[OF il] ei)
  have oth: "\<forall>b<length (table s). b \<noteq> a \<longrightarrow> table s' ! b = table s ! b"
    by (simp add: t)
  have "num_elem s' = num_elem s - 1" "length (table s') = length (table s)"
    "split_ptr s' = split_ptr s" "depth s' = depth s" "init_size s' = init_size s"
    "max_load_factor s' = max_load_factor s"
    by (simp_all add: s')
  moreover have "counted s \<longrightarrow> unat (num_elem s) = unat (num_elem s') + 1"
  proof
    assume "counted s"
    hence "unat (num_elem s) = length (concat (table s')) + 1" using cc by (simp only: counted_def)
    hence nz: "unat (num_elem s) \<noteq> 0" by linarith
    hence "num_elem s \<noteq> 0" by (simp add: unat_eq_0)
    hence "unat (num_elem s - 1) = unat (num_elem s) - 1" by (rule unat_minus_one)
    thus "unat (num_elem s) = unat (num_elem s') + 1"
      using nz by (simp add: s')
  qed
  ultimately show "\<exists>s' i. remove hash k s = Inr (True, s') \<and>
               num_elem s' = num_elem s - 1 \<and>
               find_index_of k (table s ! unat (hash2bucket hash s k)) = Some i \<and>
               table s' = (table s)[unat (hash2bucket hash s k) :=
                             swap_pop i (table s ! unat (hash2bucket hash s k))] \<and>
               mset (table s' ! unat (hash2bucket hash s k)) =
                 mset (table s ! unat (hash2bucket hash s k)) - {#Entry k w#} \<and>
               (\<forall>b<length (table s). b \<noteq> unat (hash2bucket hash s k) \<longrightarrow>
                    table s' ! b = table s ! b) \<and>
               length (table s') = length (table s) \<and>
               split_ptr s' = split_ptr s \<and> depth s' = depth s \<and>
               init_size s' = init_size s \<and> max_load_factor s' = max_load_factor s \<and>
               (counted s \<longrightarrow> unat (num_elem s) = unat (num_elem s') + 1) \<and>
               get hash k s' = Inr None \<and>
               (\<forall>k'. k' \<noteq> k \<longrightarrow> get hash k' s' = get hash k' s)"
    using r i t ms oth gk go unfolding a_def[symmetric] by blast
next
  assume "LinearHash sz lf = Inr s0 \<and> unat sz + length ops < 2 ^ 64"
  hence "LinearHash sz lf = Inr s0" and "unat sz + length ops < 2 ^ 64" by simp_all
  thus "\<exists>t. run hash ops s0 = Inr t \<and> lh_inv hash t \<and> counted t"
    by (rule run_from_new_counted)
qed

theorem remove_contract_witness:
  "lh_inv word_of_int \<lparr>table = [[], [Entry (1::int) (10::int), Entry 3 30], []],
      max_load_factor = Finite (1 / 2), num_elem = 2, split_ptr = 1, init_size = 2, depth = 0\<rparr> \<and>
   counted \<lparr>table = [[], [Entry (1::int) (10::int), Entry 3 30], []],
      max_load_factor = Finite (1 / 2), num_elem = 2, split_ptr = 1, init_size = 2, depth = 0\<rparr> \<and>
   get word_of_int 2 \<lparr>table = [[], [Entry (1::int) (10::int), Entry 3 30], []],
      max_load_factor = Finite (1 / 2), num_elem = 2, split_ptr = 1, init_size = 2, depth = 0\<rparr> = Inr None \<and>
   remove word_of_int 2 \<lparr>table = [[], [Entry (1::int) (10::int), Entry 3 30], []],
      max_load_factor = Finite (1 / 2), num_elem = 2, split_ptr = 1, init_size = 2, depth = 0\<rparr> = Inr (False, \<lparr>table = [[], [Entry (1::int) (10::int), Entry 3 30], []],
      max_load_factor = Finite (1 / 2), num_elem = 2, split_ptr = 1, init_size = 2, depth = 0\<rparr>) \<and>
   get word_of_int 1 \<lparr>table = [[], [Entry (1::int) (10::int), Entry 3 30], []],
      max_load_factor = Finite (1 / 2), num_elem = 2, split_ptr = 1, init_size = 2, depth = 0\<rparr> = Inr (Some 10) \<and>
   (\<exists>s'. remove word_of_int 1 \<lparr>table = [[], [Entry (1::int) (10::int), Entry 3 30], []],
      max_load_factor = Finite (1 / 2), num_elem = 2, split_ptr = 1, init_size = 2, depth = 0\<rparr> = Inr (True, s') \<and>
      num_elem s' = num_elem \<lparr>table = [[], [Entry (1::int) (10::int), Entry 3 30], []],
      max_load_factor = Finite (1 / 2), num_elem = 2, split_ptr = 1, init_size = 2, depth = 0\<rparr> - 1 \<and>
      unat (num_elem \<lparr>table = [[], [Entry (1::int) (10::int), Entry 3 30], []],
      max_load_factor = Finite (1 / 2), num_elem = 2, split_ptr = 1, init_size = 2, depth = 0\<rparr>) = unat (num_elem s') + 1 \<and>
      get word_of_int 1 s' = Inr None \<and>
      get word_of_int 3 s' = get word_of_int 3 \<lparr>table = [[], [Entry (1::int) (10::int), Entry 3 30], []],
      max_load_factor = Finite (1 / 2), num_elem = 2, split_ptr = 1, init_size = 2, depth = 0\<rparr>) \<and>
   (LinearHash 2 (Finite (1 / 2)) :: error + (int, int) linear_hash) = Inr \<lparr>table = [[], []], max_load_factor = Finite (1 / 2), num_elem = 0, split_ptr = 0,
      init_size = 2, depth = 0\<rparr> \<and>
   unat (2 :: size_t) + length [Insert (1::int) (10::int), Insert 2 20, Insert 3 30, Insert 7 70, Insert 11 110,
      Remove 3, Insert 1 11] < 2 ^ 64 \<and>
   run word_of_int [Insert (1::int) (10::int), Insert 2 20, Insert 3 30, Insert 7 70, Insert 11 110,
      Remove 3, Insert 1 11] \<lparr>table = [[], []], max_load_factor = Finite (1 / 2), num_elem = 0, split_ptr = 0,
      init_size = 2, depth = 0\<rparr> = Inr \<lparr>table = [[], [Entry (1::int) (11::int)], [Entry 2 20], [Entry 11 110, Entry 7 70], [], []],
      max_load_factor = Finite (1 / 2), num_elem = 4, split_ptr = 2, init_size = 2, depth = 1\<rparr> \<and>
   lh_inv word_of_int \<lparr>table = [[], [Entry (1::int) (11::int)], [Entry 2 20], [Entry 11 110, Entry 7 70], [], []],
      max_load_factor = Finite (1 / 2), num_elem = 4, split_ptr = 2, init_size = 2, depth = 1\<rparr> \<and>
   counted \<lparr>table = [[], [Entry (1::int) (11::int)], [Entry 2 20], [Entry 11 110, Entry 7 70], [], []],
      max_load_factor = Finite (1 / 2), num_elem = 4, split_ptr = 2, init_size = 2, depth = 1\<rparr>"
proof -
  let ?W = "\<lparr>table = [[], [Entry (1::int) (10::int), Entry 3 30], []],
      max_load_factor = Finite (1 / 2), num_elem = 2, split_ptr = 1, init_size = 2, depth = 0\<rparr>"
  let ?ops = "[Insert (1::int) (10::int), Insert 2 20, Insert 3 30, Insert 7 70, Insert 11 110,
      Remove 3, Insert 1 11]"
  let ?s0 = "\<lparr>table = [[], []], max_load_factor = Finite (1 / 2), num_elem = 0, split_ptr = 0,
      init_size = 2, depth = 0\<rparr>"
  have c: "counted ?W" by (simp add: counted_def)
  have a: "get word_of_int 2 ?W = Inr None" by code_simp
  have p: "get word_of_int 1 ?W = Inr (Some 10)" by code_simp
  have b: "unat (2 :: size_t) + length ?ops < 2 ^ 64" by simp
  have pre: "(LinearHash 2 (Finite (1 / 2)) :: error + (int, int) linear_hash) = Inr ?s0 \<and>
             unat (2 :: size_t) + length ?ops < 2 ^ 64"
    using new_2_half b by (rule conjI)
  note t = remove_contract[OF lh_inv_example_wrap, where k = 2 and w = 10 and sz = 2
      and lf = "Finite (1 / 2)" and ?s0.0 = ?s0 and ops = ?ops]
  note u = remove_contract[OF lh_inv_example_wrap, where k = 1 and w = 10 and sz = 2
      and lf = "Finite (1 / 2)" and ?s0.0 = ?s0 and ops = ?ops]
  have 1: "remove word_of_int 2 ?W = Inr (False, ?W)"
    using t[THEN conjunct2, THEN conjunct1] a by (rule mp)
  from u[THEN conjunct2, THEN conjunct2, THEN conjunct1, THEN mp, OF p]
  obtain s' where r: "remove word_of_int 1 ?W = Inr (True, s')"
    and n: "num_elem s' = num_elem ?W - 1"
    and cn: "counted ?W \<longrightarrow> unat (num_elem ?W) = unat (num_elem s') + 1"
    and gk: "get word_of_int 1 s' = Inr None"
    and go: "\<forall>k'. k' \<noteq> 1 \<longrightarrow> get word_of_int k' s' = get word_of_int k' ?W"
    by (elim exE conjE)
  from cn c have cn': "unat (num_elem ?W) = unat (num_elem s') + 1" by (rule mp)
  from go have g3: "get word_of_int 3 s' = get word_of_int 3 ?W" by simp
  from r n cn' gk g3
  have 2: "\<exists>s'. remove word_of_int 1 ?W = Inr (True, s') \<and>
      num_elem s' = num_elem ?W - 1 \<and>
      unat (num_elem ?W) = unat (num_elem s') + 1 \<and>
      get word_of_int 1 s' = Inr None \<and>
      get word_of_int 3 s' = get word_of_int 3 ?W"
    by (intro exI[of _ s'] conjI)
  from u[THEN conjunct2, THEN conjunct2, THEN conjunct2, THEN mp, OF pre]
  have 3: "lh_inv word_of_int \<lparr>table = [[], [Entry (1::int) (11::int)], [Entry 2 20], [Entry 11 110, Entry 7 70], [], []],
      max_load_factor = Finite (1 / 2), num_elem = 4, split_ptr = 2, init_size = 2, depth = 1\<rparr> \<and>
           counted \<lparr>table = [[], [Entry (1::int) (11::int)], [Entry 2 20], [Entry 11 110, Entry 7 70], [], []],
      max_load_factor = Finite (1 / 2), num_elem = 4, split_ptr = 2, init_size = 2, depth = 1\<rparr>"
    unfolding run_example by (elim exE conjE) simp
  from lh_inv_example_wrap c a 1 p 2 new_2_half b run_example 3
  show ?thesis by (intro conjI) simp_all
qed

text \<open>
  C9. On a table whose sizes fit \<open>size_t\<close>, the loop from \<open>begin()\<close> to \<open>end()\<close> raises
  nothing, terminates and visits exactly the entries of the buckets in bucket-index
  order, each bucket in storage order. \<open>end()\<close> is the position
  \<open>(table.length, 0)\<close>, and \<open>begin() == end()\<close> exactly when no bucket holds an entry,
  which is when \<open>size()\<close> is 0 if \<open>num_elem\<close> counts the entries.
  At a position on an entry, dereferencing yields that entry, the position is not
  \<open>end()\<close>, and \<open>++\<close> moves to the next entry of the bucket or, from its last entry, to
  entry 0 of the next non-empty bucket, or to \<open>table.length\<close> when there is none.
\<close>

theorem iteration_visits_all:
  assumes len: "length (table hm) < 2 ^ 64" and bl: "\<forall>b\<in>set (table hm). length b < 2 ^ 64"
  shows "visit_all hm = Inr (concat (table hm)) \<and>
         end_lh hm = Inr \<lparr>bucket_idx = vsize (table hm), entry_idx = 0\<rparr> \<and>
         (begin_lh hm = end_lh hm \<longleftrightarrow> concat (table hm) = []) \<and>
         (counted hm \<longrightarrow> (begin_lh hm = end_lh hm \<longleftrightarrow> get_num_elem hm = 0)) \<and>
         (unat (bucket_idx it) < length (table hm) \<and>
          unat (entry_idx it) < length (table hm ! unat (bucket_idx it)) \<longrightarrow>
            deref hm it = Inr (table hm ! unat (bucket_idx it) ! unat (entry_idx it)) \<and>
            Inr it \<noteq> end_lh hm \<and>
            (\<exists>it'. increment hm it = Inr it' \<and>
               (if unat (entry_idx it) + 1 < length (table hm ! unat (bucket_idx it))
                then bucket_idx it' = bucket_idx it \<and>
                     unat (entry_idx it') = unat (entry_idx it) + 1
                else entry_idx it' = 0 \<and> unat (bucket_idx it) < unat (bucket_idx it') \<and>
                     unat (bucket_idx it') \<le> length (table hm) \<and>
                     (\<forall>j. unat (bucket_idx it) < j \<and> j < unat (bucket_idx it')
                           \<longrightarrow> table hm ! j = []) \<and>
                     (unat (bucket_idx it') < length (table hm)
                           \<longrightarrow> table hm ! unat (bucket_idx it') \<noteq> []))))"
proof (intro conjI impI)
  define fin where "fin = \<lparr>bucket_idx = vsize (table hm), entry_idx = 0\<rparr>"
  have n: "unat (vsize (table hm)) = length (table hm)" using len by (rule unat_vsize)
  show e: "end_lh hm = Inr \<lparr>bucket_idx = vsize (table hm), entry_idx = 0\<rparr>" by (rule end_spec)
  from begin_spec[OF len] obtain b0 where
    b: "begin_lh hm = Inr \<lparr>bucket_idx = b0, entry_idx = 0\<rparr>"
    and hi: "unat b0 \<le> length (table hm)"
    and em: "\<forall>j<unat b0. table hm ! j = []"
    and nonempty: "unat b0 < length (table hm) \<longrightarrow> table hm ! unat b0 \<noteq> []"
    by blast
  have all_empty: "concat (table hm) = [] \<longleftrightarrow> unat b0 = length (table hm)"
  proof
    assume "concat (table hm) = []"
    hence "\<forall>j<length (table hm). table hm ! j = []" by (simp only: concat_empty_iff)
    with nonempty hi show "unat b0 = length (table hm)" by (cases "unat b0 < length (table hm)") auto
  next
    assume "unat b0 = length (table hm)"
    with em have "\<forall>j<length (table hm). table hm ! j = []" by simp
    thus "concat (table hm) = []" by (simp only: concat_empty_iff)
  qed
  have "begin_lh hm = end_lh hm \<longleftrightarrow> b0 = vsize (table hm)" by (simp add: b e)
  also have "\<dots> \<longleftrightarrow> unat b0 = length (table hm)" by (simp add: word_eq_unat n)
  finally show be: "begin_lh hm = end_lh hm \<longleftrightarrow> concat (table hm) = []" using all_empty by simp
  show "begin_lh hm = end_lh hm \<longleftrightarrow> get_num_elem hm = 0" if "counted hm"
  proof -
    have "get_num_elem hm = 0 \<longleftrightarrow> unat (num_elem hm) = 0"
      by (simp add: get_num_elem_def unat_eq_0)
    also have "\<dots> \<longleftrightarrow> concat (table hm) = []" using that by (simp add: counted_def)
    finally show ?thesis using be by simp
  qed
  have v: "visit_all hm = iterate hm \<lparr>bucket_idx = b0, entry_idx = 0\<rparr> fin"
    by (simp add: visit_all_def b e fin_def)
  show "visit_all hm = Inr (concat (table hm))"
  proof (cases "unat b0 < length (table hm)")
    case True
    have "iterate hm \<lparr>bucket_idx = b0, entry_idx = 0\<rparr> fin =
            Inr (drop (unat (entry_idx \<lparr>bucket_idx = b0, entry_idx = 0\<rparr>))
                   (table hm ! unat (bucket_idx \<lparr>bucket_idx = b0, entry_idx = 0\<rparr>)) @
                 concat (drop (unat (bucket_idx \<lparr>bucket_idx = b0, entry_idx = 0\<rparr>) + 1) (table hm)))"
      using True nonempty by (intro iterate_from_valid[OF len bl fin_def]) simp_all
    hence "visit_all hm = Inr (concat (drop (unat b0) (table hm)))"
      using True by (simp add: v flip: Cons_nth_drop_Suc)
    moreover have "concat (drop 0 (table hm)) = concat (drop (unat b0) (table hm))"
      using em hi by (intro concat_drop_empty) simp_all
    ultimately show ?thesis by simp
  next
    case False
    with hi have eq: "unat b0 = length (table hm)" by simp
    hence "\<lparr>bucket_idx = b0, entry_idx = 0\<rparr> = fin" by (simp add: word_eq_unat n fin_def)
    hence "visit_all hm = iterate hm fin fin" by (simp only: v)
    hence "visit_all hm = Inr []" by (simp add: iterate.simps[of hm fin fin])
    thus ?thesis using all_empty eq by simp
  qed
next
  assume v: "unat (bucket_idx it) < length (table hm) \<and>
          unat (entry_idx it) < length (table hm ! unat (bucket_idx it))"
  hence vb: "unat (bucket_idx it) < length (table hm)"
    and ve: "unat (entry_idx it) < length (table hm ! unat (bucket_idx it))" by simp_all
  have bkl: "length (table hm ! unat (bucket_idx it)) < 2 ^ 64" using bl vb by simp
  show "deref hm it = Inr (table hm ! unat (bucket_idx it) ! unat (entry_idx it))"
    by (simp add: deref_def vector_at_Inr[OF len vb] vector_at_Inr[OF bkl ve])
  have "unat (bucket_idx it) \<noteq> unat (vsize (table hm))"
    using vb by (simp add: unat_vsize[OF len])
  thus "Inr it \<noteq> end_lh hm" by (auto simp: end_spec)
  show "\<exists>it'. increment hm it = Inr it' \<and>
               (if unat (entry_idx it) + 1 < length (table hm ! unat (bucket_idx it))
                then bucket_idx it' = bucket_idx it \<and>
                     unat (entry_idx it') = unat (entry_idx it) + 1
                else entry_idx it' = 0 \<and> unat (bucket_idx it) < unat (bucket_idx it') \<and>
                     unat (bucket_idx it') \<le> length (table hm) \<and>
                     (\<forall>j. unat (bucket_idx it) < j \<and> j < unat (bucket_idx it')
                           \<longrightarrow> table hm ! j = []) \<and>
                     (unat (bucket_idx it') < length (table hm)
                           \<longrightarrow> table hm ! unat (bucket_idx it') \<noteq> []))"
    by (rule increment_spec[OF len bl vb ve])
qed

theorem iteration_visits_all_witness:
  "length (table \<lparr>table = [[], [Entry (1::int) (11::int)], [Entry 2 20], [Entry 11 110, Entry 7 70], [], []],
      max_load_factor = Finite (1 / 2), num_elem = 4, split_ptr = 2, init_size = 2, depth = 1\<rparr>) < 2 ^ 64 \<and>
   list_all (\<lambda>b. length b < 2 ^ 64) (table \<lparr>table = [[], [Entry (1::int) (11::int)], [Entry 2 20], [Entry 11 110, Entry 7 70], [], []],
      max_load_factor = Finite (1 / 2), num_elem = 4, split_ptr = 2, init_size = 2, depth = 1\<rparr>) \<and>
   visit_all \<lparr>table = [[], [Entry (1::int) (11::int)], [Entry 2 20], [Entry 11 110, Entry 7 70], [], []],
      max_load_factor = Finite (1 / 2), num_elem = 4, split_ptr = 2, init_size = 2, depth = 1\<rparr> = Inr [Entry 1 11, Entry 2 20, Entry 11 110, Entry 7 70] \<and>
   begin_lh \<lparr>table = [[], [Entry (1::int) (11::int)], [Entry 2 20], [Entry 11 110, Entry 7 70], [], []],
      max_load_factor = Finite (1 / 2), num_elem = 4, split_ptr = 2, init_size = 2, depth = 1\<rparr> \<noteq> end_lh \<lparr>table = [[], [Entry (1::int) (11::int)], [Entry 2 20], [Entry 11 110, Entry 7 70], [], []],
      max_load_factor = Finite (1 / 2), num_elem = 4, split_ptr = 2, init_size = 2, depth = 1\<rparr> \<and>
   unat (bucket_idx \<lparr>bucket_idx = 3, entry_idx = 1\<rparr>) < length (table \<lparr>table = [[], [Entry (1::int) (11::int)], [Entry 2 20], [Entry 11 110, Entry 7 70], [], []],
      max_load_factor = Finite (1 / 2), num_elem = 4, split_ptr = 2, init_size = 2, depth = 1\<rparr>) \<and>
   unat (entry_idx \<lparr>bucket_idx = 3, entry_idx = 1\<rparr>) < length (table \<lparr>table = [[], [Entry (1::int) (11::int)], [Entry 2 20], [Entry 11 110, Entry 7 70], [], []],
      max_load_factor = Finite (1 / 2), num_elem = 4, split_ptr = 2, init_size = 2, depth = 1\<rparr> ! unat (bucket_idx \<lparr>bucket_idx = 3, entry_idx = 1\<rparr>)) \<and>
   deref \<lparr>table = [[], [Entry (1::int) (11::int)], [Entry 2 20], [Entry 11 110, Entry 7 70], [], []],
      max_load_factor = Finite (1 / 2), num_elem = 4, split_ptr = 2, init_size = 2, depth = 1\<rparr> \<lparr>bucket_idx = 3, entry_idx = 1\<rparr> = Inr (Entry 7 70) \<and>
   Inr \<lparr>bucket_idx = 3, entry_idx = 1\<rparr> \<noteq> end_lh \<lparr>table = [[], [Entry (1::int) (11::int)], [Entry 2 20], [Entry 11 110, Entry 7 70], [], []],
      max_load_factor = Finite (1 / 2), num_elem = 4, split_ptr = 2, init_size = 2, depth = 1\<rparr> \<and>
   increment \<lparr>table = [[], [Entry (1::int) (11::int)], [Entry 2 20], [Entry 11 110, Entry 7 70], [], []],
      max_load_factor = Finite (1 / 2), num_elem = 4, split_ptr = 2, init_size = 2, depth = 1\<rparr> \<lparr>bucket_idx = 3, entry_idx = 1\<rparr> = Inr \<lparr>bucket_idx = 6, entry_idx = 0\<rparr> \<and>
   counted \<lparr>table = [[], []] :: (int, int) bucket list, max_load_factor = Finite (1 / 2), num_elem = 0,
      split_ptr = 0, init_size = 2, depth = 0\<rparr> \<and>
   get_num_elem \<lparr>table = [[], []] :: (int, int) bucket list, max_load_factor = Finite (1 / 2), num_elem = 0,
      split_ptr = 0, init_size = 2, depth = 0\<rparr> = 0 \<and>
   begin_lh \<lparr>table = [[], []] :: (int, int) bucket list, max_load_factor = Finite (1 / 2), num_elem = 0,
      split_ptr = 0, init_size = 2, depth = 0\<rparr> = end_lh \<lparr>table = [[], []] :: (int, int) bucket list, max_load_factor = Finite (1 / 2), num_elem = 0,
      split_ptr = 0, init_size = 2, depth = 0\<rparr>"
proof -
  let ?F = "\<lparr>table = [[], [Entry (1::int) (11::int)], [Entry 2 20], [Entry 11 110, Entry 7 70], [], []],
      max_load_factor = Finite (1 / 2), num_elem = 4, split_ptr = 2, init_size = 2, depth = 1\<rparr>"
  let ?E = "\<lparr>table = [[], []] :: (int, int) bucket list, max_load_factor = Finite (1 / 2), num_elem = 0,
      split_ptr = 0, init_size = 2, depth = 0\<rparr>"
  let ?it = "\<lparr>bucket_idx = 3, entry_idx = 1\<rparr>"
  have l: "length (table ?F) < 2 ^ 64" by simp
  have b: "\<forall>b\<in>set (table ?F). length b < 2 ^ 64" by simp
  have b': "list_all (\<lambda>b. length b < 2 ^ 64) (table ?F)" by simp
  have le: "length (table ?E) < 2 ^ 64" by simp
  have be: "\<forall>b\<in>set (table ?E). length b < 2 ^ 64" by simp
  have c: "concat (table ?F) = [Entry 1 11, Entry 2 20, Entry 11 110, Entry 7 70]" by simp
  have v1: "unat (bucket_idx ?it) < length (table ?F)" by code_simp
  have v2: "unat (entry_idx ?it) < length (table ?F ! unat (bucket_idx ?it))" by code_simp
  have v: "unat (bucket_idx ?it) < length (table ?F) \<and>
           unat (entry_idx ?it) < length (table ?F ! unat (bucket_idx ?it))"
    using v1 v2 by (rule conjI)
  have i: "increment ?F ?it = Inr \<lparr>bucket_idx = 6, entry_idx = 0\<rparr>" by code_simp
  have e: "table ?F ! unat (bucket_idx ?it) ! unat (entry_idx ?it) = Entry 7 70" by code_simp
  note t = iteration_visits_all[OF l b, of ?it]
  from t[THEN conjunct1] have 1: "visit_all ?F = Inr [Entry 1 11, Entry 2 20, Entry 11 110, Entry 7 70]"
    by (simp only: c)
  from t[THEN conjunct2, THEN conjunct2, THEN conjunct1]
  have 2: "begin_lh ?F \<noteq> end_lh ?F" by (simp only: c) simp
  note p = t[THEN conjunct2, THEN conjunct2, THEN conjunct2, THEN conjunct2, THEN mp, OF v]
  from p[THEN conjunct1] have d: "deref ?F ?it = Inr (Entry 7 70)" by (simp only: e)
  from p[THEN conjunct2, THEN conjunct1] have ne: "Inr ?it \<noteq> end_lh ?F" .
  have ce: "counted ?E" by (simp add: counted_def)
  have z: "get_num_elem ?E = 0" by (simp add: get_num_elem_def)
  note u = iteration_visits_all[OF le be, of ?it]
  from u[THEN conjunct2, THEN conjunct2, THEN conjunct2, THEN conjunct1, THEN mp, OF ce] z
  have 3: "begin_lh ?E = end_lh ?E" by (rule iffD2)
  from l b' 1 2 v1 v2 d ne i ce z 3 show ?thesis by (intro conjI)
qed

text \<open>
  C10. In a state where \<open>init_size\<close> is a power of two (invariant 1: the field is
  \<open>const\<close> and the constructor admits nothing else), \<open>split_ptr < init_size << depth\<close> and
  \<open>table.length = (init_size << depth) + split_ptr\<close>, the index \<open>hash2bucket\<close> returns is
  below the table length for every key, so \<open>table.at(hash2bucket(key))\<close> yields a bucket
  and \<open>get\<close>, \<open>in\<close>, \<open>remove\<close> and \<open>insert\<close> return without the out-of-range error
  (for \<open>insert\<close>, which may append a bucket, while the grown length fits \<open>size_t\<close>).
  Every state reached from a constructed table by operations is such a state.
\<close>

theorem lookups_in_range:
  "(inv_pow2 s \<and> inv_length s \<and> inv_split_ptr s \<longrightarrow>
      unat (hash2bucket hash s k) < length (table s) \<and>
      hash2bucket hash s k < vsize (table s) \<and>
      vector_at (table s) (hash2bucket hash s k) = Inr (table s ! unat (hash2bucket hash s k)) \<and>
      (\<exists>r. get hash k s = Inr r) \<and> (\<exists>r. in_lh hash k s = Inr r) \<and>
      (\<exists>r. remove hash k s = Inr r) \<and>
      (length (table s) + 1 < 2 ^ 64 \<longrightarrow> (\<exists>s'. insert_lh hash k v s = Inr s'))) \<and>
   (LinearHash sz lf = Inr s0 \<and> unat sz + length ops < 2 ^ 64 \<longrightarrow>
      (\<exists>t. run hash ops s0 = Inr t \<and> inv_pow2 t \<and> inv_length t \<and> inv_split_ptr t \<and>
         hash2bucket hash t k < vsize (table t) \<and>
         vector_at (table t) (hash2bucket hash t k) = Inr (table t ! unat (hash2bucket hash t k))))"
proof (rule conjI; rule impI)
  assume "inv_pow2 s \<and> inv_length s \<and> inv_split_ptr s"
  hence "\<exists>m. geometry s m" by (intro geometry_of_inv) simp_all
  then obtain m where g: "geometry s m" ..
  have r: "unat (hash2bucket hash s k) < length (table s)" by (rule hash2bucket_in_range[OF g])
  have l: "length (table s) < 2 ^ 64" using g by (simp add: geometry_def)
  have "hash2bucket hash s k < vsize (table s)"
    using r l by (simp add: word_less_nat_alt unat_vsize)
  thus "unat (hash2bucket hash s k) < length (table s) \<and>
      hash2bucket hash s k < vsize (table s) \<and>
      vector_at (table s) (hash2bucket hash s k) = Inr (table s ! unat (hash2bucket hash s k)) \<and>
      (\<exists>r. get hash k s = Inr r) \<and> (\<exists>r. in_lh hash k s = Inr r) \<and>
      (\<exists>r. remove hash k s = Inr r) \<and>
      (length (table s) + 1 < 2 ^ 64 \<longrightarrow> (\<exists>s'. insert_lh hash k v s = Inr s'))"
    using r vector_at_bucket[OF g, of hash k] get_no_error[OF g, of hash k]
      in_no_error[OF g, of hash k] remove_no_error[OF g, of hash k] insert_lh_total[OF g, of hash k v]
    by simp
next
  assume "LinearHash sz lf = Inr s0 \<and> unat sz + length ops < 2 ^ 64"
  hence new: "LinearHash sz lf = Inr s0" and b: "unat sz + length ops < 2 ^ 64" by simp_all
  from run_from_new[OF new b, of hash] obtain t where
    r: "run hash ops s0 = Inr t" and i: "lh_inv hash t" by blast
  from i obtain m where g: "geometry t m" by (auto simp: lh_inv_def)
  have l: "length (table t) < 2 ^ 64" using g by (simp add: geometry_def)
  have "hash2bucket hash t k < vsize (table t)"
    using hash2bucket_in_range[OF g, of hash k] l by (simp add: word_less_nat_alt unat_vsize)
  with r geometry_inv[OF g] vector_at_bucket[OF g, of hash k]
  show "\<exists>t. run hash ops s0 = Inr t \<and> inv_pow2 t \<and> inv_length t \<and> inv_split_ptr t \<and>
         hash2bucket hash t k < vsize (table t) \<and>
         vector_at (table t) (hash2bucket hash t k) = Inr (table t ! unat (hash2bucket hash t k))"
    by blast
qed

theorem lookups_in_range_witness:
  "inv_pow2 \<lparr>table = [[], [Entry (5::int) (50::int)], []], max_load_factor = Finite (3 / 4), num_elem = 1,
             split_ptr = 1, init_size = 2, depth = 0\<rparr> \<and>
   inv_length \<lparr>table = [[], [Entry (5::int) (50::int)], []], max_load_factor = Finite (3 / 4), num_elem = 1,
             split_ptr = 1, init_size = 2, depth = 0\<rparr> \<and>
   inv_split_ptr \<lparr>table = [[], [Entry (5::int) (50::int)], []], max_load_factor = Finite (3 / 4), num_elem = 1,
             split_ptr = 1, init_size = 2, depth = 0\<rparr> \<and>
   length (table \<lparr>table = [[], [Entry (5::int) (50::int)], []], max_load_factor = Finite (3 / 4), num_elem = 1,
             split_ptr = 1, init_size = 2, depth = 0\<rparr>) + 1 < 2 ^ 64 \<and>
   hash2bucket word_of_int \<lparr>table = [[], [Entry (5::int) (50::int)], []], max_load_factor = Finite (3 / 4), num_elem = 1,
             split_ptr = 1, init_size = 2, depth = 0\<rparr> 6 = 2 \<and>
   vector_at (table \<lparr>table = [[], [Entry (5::int) (50::int)], []], max_load_factor = Finite (3 / 4), num_elem = 1,
             split_ptr = 1, init_size = 2, depth = 0\<rparr>) (hash2bucket word_of_int \<lparr>table = [[], [Entry (5::int) (50::int)], []], max_load_factor = Finite (3 / 4), num_elem = 1,
             split_ptr = 1, init_size = 2, depth = 0\<rparr> 6) = Inr [] \<and>
   get word_of_int 5 \<lparr>table = [[], [Entry (5::int) (50::int)], []], max_load_factor = Finite (3 / 4), num_elem = 1,
             split_ptr = 1, init_size = 2, depth = 0\<rparr> = Inr (Some 50) \<and>
   (\<exists>s'. insert_lh word_of_int 6 60 \<lparr>table = [[], [Entry (5::int) (50::int)], []], max_load_factor = Finite (3 / 4), num_elem = 1,
             split_ptr = 1, init_size = 2, depth = 0\<rparr> = Inr s') \<and>
   (LinearHash 2 (Finite (1 / 2)) :: error + (int, int) linear_hash) = Inr \<lparr>table = [[], []], max_load_factor = Finite (1 / 2), num_elem = 0, split_ptr = 0,
      init_size = 2, depth = 0\<rparr> \<and>
   unat (2 :: size_t) + length [Insert (1::int) (10::int), Insert 2 20, Insert 3 30, Insert 7 70, Insert 11 110,
                    Remove 3, Insert 1 11] < 2 ^ 64 \<and>
   run word_of_int [Insert (1::int) (10::int), Insert 2 20, Insert 3 30, Insert 7 70, Insert 11 110,
                    Remove 3, Insert 1 11] \<lparr>table = [[], []], max_load_factor = Finite (1 / 2), num_elem = 0, split_ptr = 0,
      init_size = 2, depth = 0\<rparr> = Inr \<lparr>table = [[], [Entry (1::int) (11::int)], [Entry 2 20], [Entry 11 110, Entry 7 70], [], []],
        max_load_factor = Finite (1 / 2), num_elem = 4, split_ptr = 2, init_size = 2, depth = 1\<rparr> \<and>
   inv_pow2 \<lparr>table = [[], [Entry (1::int) (11::int)], [Entry 2 20], [Entry 11 110, Entry 7 70], [], []],
        max_load_factor = Finite (1 / 2), num_elem = 4, split_ptr = 2, init_size = 2, depth = 1\<rparr> \<and> inv_length \<lparr>table = [[], [Entry (1::int) (11::int)], [Entry 2 20], [Entry 11 110, Entry 7 70], [], []],
        max_load_factor = Finite (1 / 2), num_elem = 4, split_ptr = 2, init_size = 2, depth = 1\<rparr> \<and> inv_split_ptr \<lparr>table = [[], [Entry (1::int) (11::int)], [Entry 2 20], [Entry 11 110, Entry 7 70], [], []],
        max_load_factor = Finite (1 / 2), num_elem = 4, split_ptr = 2, init_size = 2, depth = 1\<rparr> \<and>
   hash2bucket word_of_int \<lparr>table = [[], [Entry (1::int) (11::int)], [Entry 2 20], [Entry 11 110, Entry 7 70], [], []],
        max_load_factor = Finite (1 / 2), num_elem = 4, split_ptr = 2, init_size = 2, depth = 1\<rparr> 7 < vsize (table \<lparr>table = [[], [Entry (1::int) (11::int)], [Entry 2 20], [Entry 11 110, Entry 7 70], [], []],
        max_load_factor = Finite (1 / 2), num_elem = 4, split_ptr = 2, init_size = 2, depth = 1\<rparr>)"
proof -
  let ?s = "\<lparr>table = [[], [Entry (5::int) (50::int)], []], max_load_factor = Finite (3 / 4), num_elem = 1,
             split_ptr = 1, init_size = 2, depth = 0\<rparr>"
  have 1: "inv_pow2 ?s" by (auto simp: inv_pow2_def intro: exI[of _ 1])
  have 2: "inv_length ?s" by (simp add: inv_length_def)
  have 3: "inv_split_ptr ?s" by (simp add: inv_split_ptr_def)
  have l: "length (table ?s) + 1 < 2 ^ 64" by simp
  have 4: "hash2bucket word_of_int ?s 6 = 2" by (simp add: hash2bucket_def)
  have 5: "get word_of_int 5 ?s = Inr (Some 50)" by code_simp
  have nth: "table ?s ! unat (hash2bucket word_of_int ?s 6) = []" by code_simp
  have b: "unat (2 :: size_t) + length [Insert (1::int) (10::int), Insert 2 20, Insert 3 30, Insert 7 70, Insert 11 110,
                    Remove 3, Insert 1 11] < 2 ^ 64" by simp
  note t = lookups_in_range[of ?s word_of_int 6 60 2 "Finite (1 / 2)" "\<lparr>table = [[], []], max_load_factor = Finite (1 / 2), num_elem = 0, split_ptr = 0,
      init_size = 2, depth = 0\<rparr>" "[Insert (1::int) (10::int), Insert 2 20, Insert 3 30, Insert 7 70, Insert 11 110,
                    Remove 3, Insert 1 11]" ]
  have pre1: "inv_pow2 ?s \<and> inv_length ?s \<and> inv_split_ptr ?s" using 1 2 3 by (intro conjI)
  note t1 = t[THEN conjunct1, THEN mp, OF pre1]
  from t1 l have 6: "\<exists>s'. insert_lh word_of_int 6 60 ?s = Inr s'" by (elim conjE impE)
  from t1 have "vector_at (table ?s) (hash2bucket word_of_int ?s 6) =
      Inr (table ?s ! unat (hash2bucket word_of_int ?s 6))" by (elim conjE)
  hence 7: "vector_at (table ?s) (hash2bucket word_of_int ?s 6) = Inr []"
    by (simp only: nth)
  have pre: "(LinearHash 2 (Finite (1 / 2)) :: error + (int, int) linear_hash) = Inr \<lparr>table = [[], []], max_load_factor = Finite (1 / 2), num_elem = 0, split_ptr = 0,
      init_size = 2, depth = 0\<rparr> \<and>
             unat (2 :: size_t) + length [Insert (1::int) (10::int), Insert 2 20, Insert 3 30, Insert 7 70, Insert 11 110,
                    Remove 3, Insert 1 11] < 2 ^ 64"
    using new_2_half b by (rule conjI)
  note t2 = lookups_in_range[of ?s word_of_int 7 60 2 "Finite (1 / 2)" "\<lparr>table = [[], []], max_load_factor = Finite (1 / 2), num_elem = 0, split_ptr = 0,
      init_size = 2, depth = 0\<rparr>" "[Insert (1::int) (10::int), Insert 2 20, Insert 3 30, Insert 7 70, Insert 11 110,
                    Remove 3, Insert 1 11]", THEN conjunct2, THEN mp, OF pre]
  from t2
  have "\<exists>t. run word_of_int [Insert (1::int) (10::int), Insert 2 20, Insert 3 30, Insert 7 70, Insert 11 110,
                    Remove 3, Insert 1 11] \<lparr>table = [[], []], max_load_factor = Finite (1 / 2), num_elem = 0, split_ptr = 0,
      init_size = 2, depth = 0\<rparr> = Inr t \<and> inv_pow2 t \<and> inv_length t \<and> inv_split_ptr t \<and>
         hash2bucket word_of_int t 7 < vsize (table t)"
    by (elim exE conjE, intro exI conjI)
  hence 8: "inv_pow2 \<lparr>table = [[], [Entry (1::int) (11::int)], [Entry 2 20], [Entry 11 110, Entry 7 70], [], []],
        max_load_factor = Finite (1 / 2), num_elem = 4, split_ptr = 2, init_size = 2, depth = 1\<rparr> \<and> inv_length \<lparr>table = [[], [Entry (1::int) (11::int)], [Entry 2 20], [Entry 11 110, Entry 7 70], [], []],
        max_load_factor = Finite (1 / 2), num_elem = 4, split_ptr = 2, init_size = 2, depth = 1\<rparr> \<and> inv_split_ptr \<lparr>table = [[], [Entry (1::int) (11::int)], [Entry 2 20], [Entry 11 110, Entry 7 70], [], []],
        max_load_factor = Finite (1 / 2), num_elem = 4, split_ptr = 2, init_size = 2, depth = 1\<rparr> \<and>
         hash2bucket word_of_int \<lparr>table = [[], [Entry (1::int) (11::int)], [Entry 2 20], [Entry 11 110, Entry 7 70], [], []],
        max_load_factor = Finite (1 / 2), num_elem = 4, split_ptr = 2, init_size = 2, depth = 1\<rparr> 7 < vsize (table \<lparr>table = [[], [Entry (1::int) (11::int)], [Entry 2 20], [Entry 11 110, Entry 7 70], [], []],
        max_load_factor = Finite (1 / 2), num_elem = 4, split_ptr = 2, init_size = 2, depth = 1\<rparr>)"
    unfolding run_example by simp
  from 1 2 3 l 4 5 6 7 8 new_2_half b run_example show ?thesis by blast
qed

end
